theory Spec2Isabelle
  imports Complex_Main
begin

section \<open>Event-window video extraction: a shallow embedding of the extraction scripts\<close>

text \<open>
  The repository holds four near-duplicate scripts:
  \<^verbatim>\<open>preprocess/extract_clips_frames.py\<close>, \<^verbatim>\<open>preprocess/extract_clips_frames_label.py\<close>,
  \<^verbatim>\<open>preprocess/newExtractFrames.py\<close> and \<^verbatim>\<open>soccerProjNewCode-1.py\<close>.
  Functions that are textually the same in all four are embedded once; where the scripts
  differ, the definition takes the script as a parameter and follows each one's text.

  Conventions of the embedding.
  \<^item> A Python \<^verbatim>\<open>str\<close> is a \<^typ>\<open>string\<close>; one \<^typ>\<open>char\<close> stands for one code point
    below 256.
  \<^item> Python numbers (the \<^verbatim>\<open>int\<close> returned by \<^verbatim>\<open>parse_time_stamp\<close>, the \<^verbatim>\<open>float\<close>
    values of seconds and frame rate) are exact rationals; \<^verbatim>\<open>round\<close> is Python's
    round-half-to-even.
  \<^item> An exception is a value \<open>Inl e\<close> of a sum type; a function that also writes files
    returns the list of what it did together with \<open>Some e\<close> when an exception ended it.
  \<^item> The video codec is outside the scripts: a video is given by what \<^verbatim>\<open>cv2\<close> reports of
    it and by which frames can be read. Output directories and the names of the still
    images are left out; a job is known by the name of its clip file.
\<close>

datatype script = Extract_clips_frames | Extract_clips_frames_label | NewExtractFrames | SoccerProj

datatype error =
    Empty_timestamp
  | Unrecognized_time_format string
  | Load_failure

subsection \<open>Characters and digit strings\<close>

definition is_digit :: "char \<Rightarrow> bool" where
  \<comment> \<open>the regular expression class \<^verbatim>\<open>\d\<close>\<close>
  "is_digit c \<longleftrightarrow> 48 \<le> (of_char c :: nat) \<and> (of_char c :: nat) \<le> 57"

definition is_space :: "char \<Rightarrow> bool" where
  \<comment> \<open>\<^verbatim>\<open>str.isspace\<close> and the class \<^verbatim>\<open>\s\<close>, on code points below 256\<close>
  "is_space c \<longleftrightarrow>
     (let n = (of_char c :: nat)
      in (9 \<le> n \<and> n \<le> 13) \<or> (28 \<le> n \<and> n \<le> 32) \<or> n = 133 \<or> n = 160)"

definition strip :: "string \<Rightarrow> string" where
  "strip s = rev (dropWhile is_space (rev (dropWhile is_space s)))"

definition digit_val :: "char \<Rightarrow> nat" where
  "digit_val c = of_char c - 48"

definition int_of_digits :: "string \<Rightarrow> nat" where
  \<comment> \<open>Python's \<^verbatim>\<open>int(s)\<close> on a string of decimal digits\<close>
  "int_of_digits s = foldl (\<lambda>acc c. 10 * acc + digit_val c) 0 s"

subsection \<open>\<^verbatim>\<open>parse_time_stamp\<close>\<close>

text \<open>
  \<^verbatim>\<open>re.fullmatch(r'(\d+)(?:\+(\d+))?:(\d{2})', s)\<close>: the three groups of the match, or
  \<open>None\<close>. The first group is the longest run of digits at the front, since the next
  character has to be \<^verbatim>\<open>+\<close> or \<^verbatim>\<open>:\<close>; likewise for the second group.
\<close>

definition match_seconds :: "string \<Rightarrow> string option" where
  \<comment> \<open>\<^verbatim>\<open>:(\d{2})\<close> up to the end of the string\<close>
  "match_seconds r =
     (case r of
        [] \<Rightarrow> None
      | c # ss \<Rightarrow> if c = CHR '':'' \<and> length ss = 2 \<and> list_all is_digit ss then Some ss else None)"

definition fullmatch_time_stamp :: "string \<Rightarrow> (string \<times> string option \<times> string) option" where
  "fullmatch_time_stamp s =
     (let g1 = takeWhile is_digit s; r1 = dropWhile is_digit s
      in if g1 = [] then None
         else (case r1 of
                 [] \<Rightarrow> None
               | c # r2 \<Rightarrow>
                   if c = CHR ''+'' then
                     (let g2 = takeWhile is_digit r2; r3 = dropWhile is_digit r2
                      in if g2 = [] then None
                         else (case match_seconds r3 of
                                 None \<Rightarrow> None
                               | Some g3 \<Rightarrow> Some (g1, Some g2, g3)))
                   else (case match_seconds r1 of
                           None \<Rightarrow> None
                         | Some g3 \<Rightarrow> Some (g1, None, g3))))"

definition parse_time_stamp :: "string \<Rightarrow> error + nat" where
  "parse_time_stamp mm_ss =
     (if mm_ss = [] then Inl Empty_timestamp
      else (case fullmatch_time_stamp (strip mm_ss) of
              None \<Rightarrow> Inl (Unrecognized_time_format mm_ss)
            | Some (g1, g2, g3) \<Rightarrow>
                (let mm = int_of_digits g1;
                     added = (case g2 of None \<Rightarrow> 0 | Some a \<Rightarrow> int_of_digits a);
                     ss = int_of_digits g3
                 in Inr ((mm + added) * 60 + ss))))"

subsection \<open>Numbers\<close>

definition py_round :: "rat \<Rightarrow> int" where
  \<comment> \<open>Python's \<^verbatim>\<open>round(x)\<close>: to the nearest integer, a tie to the even one\<close>
  "py_round x =
     (let f = \<lfloor>x\<rfloor>; d = x - of_int f
      in if d < 1 / 2 then f
         else if 1 / 2 < d then f + 1
         else if even f then f else f + 1)"

definition py_int :: "rat \<Rightarrow> int" where
  \<comment> \<open>Python's \<^verbatim>\<open>int(x)\<close> on a number: truncation toward zero\<close>
  "py_int x = (if 0 \<le> x then \<lfloor>x\<rfloor> else \<lceil>x\<rceil>)"

definition range0 :: "int \<Rightarrow> int list" where
  \<comment> \<open>\<^verbatim>\<open>range(0, n, FRAME_SAMPLING_EVERY_SEC)\<close> with the constant's value 1\<close>
  "range0 n = map int [0..<nat n]"

subsection \<open>Formatting\<close>

definition digit_char :: "nat \<Rightarrow> char" where
  "digit_char d = ''0123456789'' ! d"

fun digits :: "nat \<Rightarrow> string" where
  \<comment> \<open>the decimal digits of a number, as \<^verbatim>\<open>str(n)\<close> gives them\<close>
  "digits n =
     (if n < 10 then [digit_char n]
      else digits (n div 10) @ [digit_char (n mod 10)])"

declare digits.simps [simp del]

definition zfill :: "nat \<Rightarrow> string \<Rightarrow> string" where
  "zfill w s = replicate (w - length s) CHR ''0'' @ s"

definition fmt_d :: "nat \<Rightarrow> int \<Rightarrow> string" where
  \<comment> \<open>the format \<^verbatim>\<open>{m:0wd}\<close>\<close>
  "fmt_d w m =
     (if m < 0 then CHR ''-'' # zfill (w - 1) (digits (nat (- m)))
      else zfill w (digits (nat m)))"

definition fmt_f3 :: "nat \<Rightarrow> rat \<Rightarrow> string" where
  \<comment> \<open>the format \<^verbatim>\<open>{x:0w.3f}\<close>: three decimals, zero-padded to width \<open>w\<close>\<close>
  "fmt_f3 w x =
     (let n = nat (py_round (\<bar>x\<bar> * 1000));
          body = digits (n div 1000) @ CHR ''.'' # zfill 3 (digits (n mod 1000))
      in if x < 0 then CHR ''-'' # zfill (w - 1) body else zfill w body)"

definition norm_ts_for_filename :: "string \<Rightarrow> error + string" where
  "norm_ts_for_filename ts =
     (case parse_time_stamp ts of
        Inl e \<Rightarrow> Inl e
      | Inr sec \<Rightarrow>
          (let m = sec div 60; s = sec - 60 * m
           in Inr (fmt_d 2 (int m) @ CHR ''-'' # fmt_f3 6 (of_nat s))))"

subsection \<open>\<^verbatim>\<open>sanitize_event_name\<close>\<close>

definition lower_char :: "char \<Rightarrow> char" where
  \<comment> \<open>\<^verbatim>\<open>str.lower\<close> on one code point below 256\<close>
  "lower_char c =
     (let n = (of_char c :: nat)
      in if (65 \<le> n \<and> n \<le> 90) \<or> (192 \<le> n \<and> n \<le> 222 \<and> n \<noteq> 215) then char_of (n + 32)
         else c)"

definition lower :: "string \<Rightarrow> string" where
  "lower s = map lower_char s"

fun replace_amp :: "string \<Rightarrow> string" where
  \<comment> \<open>\<^verbatim>\<open>s.replace("&", "and")\<close>\<close>
  "replace_amp [] = []"
| "replace_amp (c # cs) = (if c = CHR ''&'' then ''and'' @ replace_amp cs else c # replace_amp cs)"

function sub_spaces :: "string \<Rightarrow> string" where
  \<comment> \<open>\<^verbatim>\<open>re.sub(r"\s+", "_", s)\<close>: each maximal run of whitespace becomes one underscore\<close>
  "sub_spaces [] = []"
| "sub_spaces (c # cs) =
     (if is_space c then CHR ''_'' # sub_spaces (dropWhile is_space cs) else c # sub_spaces cs)"
  by pat_completeness auto
termination
  by (relation "measure length") (auto simp: less_Suc_eq_le length_dropWhile_le)

definition is_safe :: "char \<Rightarrow> bool" where
  \<comment> \<open>the class \<^verbatim>\<open>[a-z0-9_\-]\<close>\<close>
  "is_safe c \<longleftrightarrow>
     (let n = (of_char c :: nat)
      in (97 \<le> n \<and> n \<le> 122) \<or> (48 \<le> n \<and> n \<le> 57) \<or> c = CHR ''_'' \<or> c = CHR ''-'')"

definition sanitize_event_name :: "string option \<Rightarrow> string" where
  "sanitize_event_name s0 =
     (let s = (case s0 of None \<Rightarrow> ''unknown'' | Some t \<Rightarrow> if t = [] then ''unknown'' else t);
          s = lower (strip s);
          s = replace_amp s;
          s = sub_spaces s;
          s = filter is_safe s
      in if s = [] then ''unknown'' else s)"

subsection \<open>The video source and the window of a job\<close>

record video =
  opened :: bool
  fps :: rat
  frame_count :: int
  width :: int
  height :: int
  readable :: "int \<Rightarrow> bool"

text \<open>
  \<open>readable v p\<close> says that \<^verbatim>\<open>cap.read()\<close> succeeds when the source stands at frame \<open>p\<close>;
  it fails where the source is exhausted or a frame does not decode.
  \<^verbatim>\<open>seek_frame(cap, start_f)\<close> puts the source at frame \<open>start_f\<close>.
\<close>

definition duration_sec :: "video \<Rightarrow> rat" where
  "duration_sec v = (if 0 < fps v then of_int (frame_count v) / fps v else 0)"

record window =
  start_sec :: rat
  end_sec :: rat
  start_f :: int
  end_f :: int

definition window_calc :: "rat \<Rightarrow> rat \<Rightarrow> rat \<Rightarrow> rat \<Rightarrow> rat \<Rightarrow> window" where
  \<comment> \<open>the first four assignments of \<^verbatim>\<open>write_clip_and_frames\<close>, the same in every script\<close>
  "window_calc center_sec before_sec after_sec duration fps' =
     (let start_sec' = max 0 (center_sec - before_sec);
          end_sec' = min duration (center_sec + after_sec)
      in \<lparr>start_sec = start_sec', end_sec = end_sec',
          start_f = py_round (start_sec' * fps'), end_f = py_round (end_sec' * fps')\<rparr>)"

definition save_idxs :: "script \<Rightarrow> window \<Rightarrow> rat \<Rightarrow> rat \<Rightarrow> rat \<Rightarrow> int set" where
  "save_idxs sc w before_sec after_sec fps' =
     (case sc of
        Extract_clips_frames \<Rightarrow>
          set (map (\<lambda>t. py_round (t * fps'))
                (map (\<lambda>i. start_sec w + of_int i) (range0 (py_int (after_sec + before_sec) + 1))))
      | Extract_clips_frames_label \<Rightarrow>
          set (map (\<lambda>t. py_round ((start_sec w + of_int t) * fps'))
                (range0 (py_round (end_sec w - start_sec w) + 1)))
      | _ \<Rightarrow>
          (let total_range = py_int (after_sec + before_sec)
           in set (map (\<lambda>i. py_round ((start_sec w + of_int i) * fps')) (range0 (total_range + 1)))))"

definition clip_name :: "script \<Rightarrow> string \<Rightarrow> string \<Rightarrow> window \<Rightarrow> string" where
  "clip_name sc event_dir tag w =
     (case sc of
        Extract_clips_frames_label \<Rightarrow>
          event_dir @ ''_clip_'' @ tag @ ''_'' @ fmt_f3 8 (start_sec w) @ ''s_to_''
            @ fmt_f3 8 (end_sec w) @ ''s.mp4''
      | _ \<Rightarrow>
          ''clip_'' @ tag @ ''_'' @ fmt_f3 8 (start_sec w) @ ''s_to_''
            @ fmt_f3 8 (end_sec w) @ ''s.mp4'')"

subsection \<open>\<^verbatim>\<open>write_clip_and_frames\<close>\<close>

text \<open>
  The read loop. Its state is the position \<open>pos\<close> of the source, the index \<open>idx\<close>, the
  count \<open>wrote\<close> of frames appended to the clip and the indices \<open>saved\<close> of the frames
  written as still images, in order.
\<close>

function read_loop :: "video \<Rightarrow> int set \<Rightarrow> int \<Rightarrow> int \<Rightarrow> int \<Rightarrow> nat \<Rightarrow> int list \<Rightarrow> nat \<times> int list" where
  "read_loop v idxs end_f' pos idx wrote saved =
     (if idx < end_f' then
        (if \<not> readable v pos then (wrote, saved)
         else read_loop v idxs end_f' (pos + 1) (idx + 1) (wrote + 1)
                (if idx \<in> idxs then saved @ [idx] else saved))
      else (wrote, saved))"
  by pat_completeness auto
termination
  by (relation "measure (\<lambda>(v, idxs, end_f', pos, idx, wrote, saved). nat (end_f' - idx))") auto

declare read_loop.simps [simp del]

datatype job =
    No_valid_range
  | Cannot_open_writer string
  | Wrote string nat "int list"

text \<open>
  \<open>Wrote name n saved\<close>: the clip \<open>name\<close> received \<open>n\<close> frames and the frames with the
  indices \<open>saved\<close> were written as still images. \<open>writer_opens name\<close> says whether
  \<^verbatim>\<open>cv2.VideoWriter\<close> can open the file \<open>name\<close>.
\<close>

definition write_clip_and_frames ::
  "script \<Rightarrow> (string \<Rightarrow> bool) \<Rightarrow> video \<Rightarrow> rat \<Rightarrow> rat \<Rightarrow> rat \<Rightarrow> string \<Rightarrow> string option \<Rightarrow> job" where
  "write_clip_and_frames sc writer_opens v center_sec before_sec after_sec tag event_name =
     (let event_dir = sanitize_event_name event_name;
          w = window_calc center_sec before_sec after_sec (duration_sec v) (fps v)
      in if end_f w \<le> start_f w then No_valid_range
         else
           (let name = clip_name sc event_dir tag w
            in if \<not> writer_opens name then Cannot_open_writer name
               else
                 (let (wrote, saved) =
                        read_loop v (save_idxs sc w before_sec after_sec (fps v)) (end_f w)
                          (start_f w) (start_f w) 0 []
                  in Wrote name wrote saved)))"

definition CLIP_BEFORE_SEC :: rat where
  "CLIP_BEFORE_SEC = 15"

definition CLIP_AFTER_SEC :: rat where
  "CLIP_AFTER_SEC = 15"

subsection \<open>Event records and deduplication\<close>

record comment =
  time_stamp :: "string option"
  comments_type :: "string option"
  half :: "int option"

text \<open>A field is \<open>None\<close> when the key is absent from the record, so that \<^verbatim>\<open>dict.get\<close>
  yields its default.\<close>

definition get_time_stamp :: "comment \<Rightarrow> string" where
  \<comment> \<open>\<^verbatim>\<open>c.get("time_stamp", "")\<close>\<close>
  "get_time_stamp c = (case time_stamp c of None \<Rightarrow> [] | Some t \<Rightarrow> t)"

fun unique_ts :: "string set \<Rightarrow> string list \<Rightarrow> string list" where
  \<comment> \<open>the loop over \<^verbatim>\<open>seen\<close> of \<^verbatim>\<open>extract_clips_frames.py\<close> and of \<^verbatim>\<open>process_match\<close>\<close>
  "unique_ts seen [] = []"
| "unique_ts seen (ts # rest) =
     (if ts \<notin> seen then ts # unique_ts (insert ts seen) rest else unique_ts seen rest)"

fun label_pairs :: "(int option \<times> string \<times> string) set \<Rightarrow> comment list \<Rightarrow> (string \<times> string \<times> int option) list" where
  \<comment> \<open>\<^verbatim>\<open>extract_clips_frames_label.py\<close>, lines 46 to 58\<close>
  "label_pairs seen [] = []"
| "label_pairs seen (c # cs) =
     (let ts = get_time_stamp c
      in if ts = [] then label_pairs seen cs
         else
           (let event = (case comments_type c of None \<Rightarrow> ''unknown'' | Some e \<Rightarrow> e);
                h = half c;
                key = (h, ts, event)
            in if key \<in> seen then label_pairs seen cs
               else (ts, event, h) # label_pairs (insert key seen) cs))"

definition label_key :: "string \<times> string \<times> int option \<Rightarrow> int option \<times> string \<times> string" where
  \<comment> \<open>the key \<^verbatim>\<open>(half, ts, event)\<close> of an entry \<^verbatim>\<open>(ts, event, half)\<close> of \<^verbatim>\<open>pairs\<close>\<close>
  "label_key p = (snd (snd p), fst p, fst (snd p))"

fun new_ts_list :: "string set \<Rightarrow> comment list \<Rightarrow> (string \<times> string) list" where
  \<comment> \<open>\<^verbatim>\<open>newExtractFrames.py\<close>, lines 67 to 76\<close>
  "new_ts_list seen [] = []"
| "new_ts_list seen (c # cs) =
     (let ts = get_time_stamp c;
          ctype = (case comments_type c of None \<Rightarrow> ''Unknown'' | Some e \<Rightarrow> e)
      in if ts \<noteq> [] \<and> ts \<notin> seen then (ts, ctype) # new_ts_list (insert ts seen) cs
         else new_ts_list seen cs)"

fun split_halves :: "comment list \<Rightarrow> string list \<times> string list" where
  \<comment> \<open>\<^verbatim>\<open>process_match\<close>, lines 133 to 144\<close>
  "split_halves [] = ([], [])"
| "split_halves (c # cs) =
     (let (timestamps_half1, timestamps_half2) = split_halves cs;
          ts = get_time_stamp c;
          h = (case half c of None \<Rightarrow> 0 | Some k \<Rightarrow> k)
      in if ts \<noteq> [] then
           (if h = 1 then (ts # timestamps_half1, timestamps_half2)
            else if h = 2 then (timestamps_half1, ts # timestamps_half2)
            else (timestamps_half1, timestamps_half2))
         else (timestamps_half1, timestamps_half2))"

subsection \<open>Sorting by a key that may raise\<close>

fun keys_of :: "('a \<Rightarrow> error + nat) \<Rightarrow> 'a list \<Rightarrow> error + nat list" where
  \<comment> \<open>\<^verbatim>\<open>sorted\<close> and \<^verbatim>\<open>list.sort\<close> call the key on every element first; an exception of the
     key leaves the call\<close>
  "keys_of key [] = Inr []"
| "keys_of key (x # xs) =
     (case key x of
        Inl e \<Rightarrow> Inl e
      | Inr k \<Rightarrow> (case keys_of key xs of Inl e \<Rightarrow> Inl e | Inr ks \<Rightarrow> Inr (k # ks)))"

definition sorted_by :: "('a \<Rightarrow> error + nat) \<Rightarrow> 'a list \<Rightarrow> error + 'a list" where
  \<comment> \<open>a stable sort on the keys\<close>
  "sorted_by key xs =
     (case keys_of key xs of
        Inl e \<Rightarrow> Inl e
      | Inr ks \<Rightarrow> Inr (map snd (sort_key fst (zip ks xs))))"

definition label_sorted_pairs :: "comment list \<Rightarrow> error + (string \<times> string \<times> int option) list" where
  \<comment> \<open>\<^verbatim>\<open>extract_clips_frames_label.py\<close>: \<^verbatim>\<open>pairs.sort(key=lambda x: parse_time_stamp(x[0]))\<close>\<close>
  "label_sorted_pairs comments = sorted_by (\<lambda>x. parse_time_stamp (fst x)) (label_pairs {} comments)"

subsection \<open>Half processor, match processor and the batch loop\<close>

datatype log =
    Processing_match string
  | Error_no_json
  | Error_no_first_half
  | Error_no_second_half
  | Could_not_open
  | Skipping_bad_timestamp string error
  | Job string job
  | Error_processing string error

text \<open>
  What a run does is the list of its log entries in order; \<open>Job tag j\<close> is the outcome
  \<open>j\<close> of the extraction job of the event with tag \<open>tag\<close>. A function returns the entries
  it produced and, when it was left by an exception, that exception.
\<close>

fun event_loop :: "script \<Rightarrow> (string \<Rightarrow> bool) \<Rightarrow> video \<Rightarrow> (string \<times> string option) list \<Rightarrow> log list \<times> error option" where
  \<comment> \<open>the loop \<^verbatim>\<open>for ts in ts_sorted\<close> with its \<^verbatim>\<open>try\<close>/\<^verbatim>\<open>except ValueError\<close>\<close>
  "event_loop sc writer_opens v [] = ([], None)"
| "event_loop sc writer_opens v ((ts, event) # rest) =
     (case parse_time_stamp ts of
        Inl e \<Rightarrow>
          (let (logs, err) = event_loop sc writer_opens v rest
           in (Skipping_bad_timestamp ts e # logs, err))
      | Inr center_sec \<Rightarrow>
          (case norm_ts_for_filename ts of
             Inl e \<Rightarrow> ([], Some e)
           | Inr tag \<Rightarrow>
               (let j = write_clip_and_frames sc writer_opens v (of_nat center_sec)
                          CLIP_BEFORE_SEC CLIP_AFTER_SEC tag event;
                    (logs, err) = event_loop sc writer_opens v rest
                in (Job tag j # logs, err))))"

definition process_half :: "(string \<Rightarrow> bool) \<Rightarrow> video \<Rightarrow> string list \<Rightarrow> log list \<times> error option" where
  "process_half writer_opens v timestamps =
     (if \<not> opened v then ([Could_not_open], None)
      else (case sorted_by parse_time_stamp timestamps of
              Inl e \<Rightarrow> ([], Some e)
            | Inr ts_sorted \<Rightarrow>
                event_loop SoccerProj writer_opens v (map (\<lambda>ts. (ts, None)) ts_sorted)))"

record match_folder =
  folder_name :: string
  json_files :: "comment list option list"
  video_half1 :: "video list"
  video_half2 :: "video list"

text \<open>
  \<open>json_files\<close>, \<open>video_half1\<close> and \<open>video_half2\<close> are what the three \<^verbatim>\<open>glob\<close> calls find.
  A JSON file is the list of its \<^verbatim>\<open>comments\<close>, or \<open>None\<close> when opening or loading it
  raises.
\<close>

definition process_match :: "(string \<Rightarrow> bool) \<Rightarrow> match_folder \<Rightarrow> log list \<times> error option" where
  "process_match writer_opens m =
     (case json_files m of
        [] \<Rightarrow> ([Processing_match (folder_name m), Error_no_json], None)
      | json # _ \<Rightarrow>
          (case video_half1 m of
             [] \<Rightarrow> ([Processing_match (folder_name m), Error_no_first_half], None)
           | video_half1_path # _ \<Rightarrow>
               (case video_half2 m of
                  [] \<Rightarrow> ([Processing_match (folder_name m), Error_no_second_half], None)
                | video_half2_path # _ \<Rightarrow>
                    (case json of
                       None \<Rightarrow> ([Processing_match (folder_name m)], Some Load_failure)
                     | Some comments \<Rightarrow>
                         (let (timestamps_half1, timestamps_half2) = split_halves comments;
                              ts_half1_unique = unique_ts {} timestamps_half1;
                              ts_half2_unique = unique_ts {} timestamps_half2;
                              (logs1, err1) =
                                (if ts_half1_unique \<noteq> []
                                 then process_half writer_opens video_half1_path ts_half1_unique
                                 else ([], None))
                          in (case err1 of
                                Some e \<Rightarrow> (Processing_match (folder_name m) # logs1, Some e)
                              | None \<Rightarrow>
                                  (let (logs2, err2) =
                                         (if ts_half2_unique \<noteq> []
                                          then process_half writer_opens video_half2_path ts_half2_unique
                                          else ([], None))
                                   in (Processing_match (folder_name m) # logs1 @ logs2, err2))))))))"

fun main_loop :: "(string \<Rightarrow> bool) \<Rightarrow> match_folder list \<Rightarrow> log list" where
  \<comment> \<open>\<^verbatim>\<open>for match_folder in sorted(match_folders)\<close> with its \<^verbatim>\<open>try\<close>/\<^verbatim>\<open>except Exception\<close>;
     the argument is the sorted list\<close>
  "main_loop writer_opens [] = []"
| "main_loop writer_opens (m # ms) =
     (case process_match writer_opens m of
        (logs, None) \<Rightarrow> logs
      | (logs, Some e) \<Rightarrow> logs @ [Error_processing (folder_name m) e])
     @ main_loop writer_opens ms"

subsection \<open>Reading a tag back\<close>


subsection \<open>The sample set as the specification words it\<close>

definition spec_SampleSet :: "window \<Rightarrow> rat \<Rightarrow> int set" where
  \<comment> \<open>\<^verbatim>\<open>{round((start_sec + k*cadence) * fps) | k = 0, 1, 2, ..., k*cadence <= end_sec - start_sec}\<close>
     with the cadence of one second\<close>
  "spec_SampleSet w f =
     {py_round ((start_sec w + of_nat k) * f) | k. of_nat k \<le> end_sec w - start_sec w}"

section \<open>Properties\<close>

subsection \<open>Timestamp parser\<close>

lemma is_digit_not_space: "is_digit c \<Longrightarrow> \<not> is_space c"
  by (auto simp: is_digit_def is_space_def Let_def)

lemma is_digit_plus [simp]: "\<not> is_digit CHR ''+''"
  by (simp add: is_digit_def)

lemma is_digit_colon [simp]: "\<not> is_digit CHR '':''"
  by (simp add: is_digit_def)

lemma takeWhile_digits_stop:
  "list_all is_digit g \<Longrightarrow> \<not> is_digit c \<Longrightarrow> takeWhile is_digit (g @ c # r) = g"
  by (induction g) auto

lemma dropWhile_digits_stop:
  "list_all is_digit g \<Longrightarrow> \<not> is_digit c \<Longrightarrow> dropWhile is_digit (g @ c # r) = c # r"
  by (induction g) auto

lemma strip_no_space_ends:
  assumes "s \<noteq> []" "\<not> is_space (hd s)" "\<not> is_space (last s)"
  shows "strip s = s"
proof -
  from assms(1,2) have a: "dropWhile is_space s = s"
    by (cases s) auto
  from assms(1,3) have b: "dropWhile is_space (rev s) = rev s"
    by (cases s rule: rev_cases) auto
  show ?thesis by (simp add: strip_def a b)
qed

lemma fullmatch_plain:
  assumes "mm \<noteq> []" "list_all is_digit mm" "length ss = 2" "list_all is_digit ss"
  shows "fullmatch_time_stamp (mm @ CHR '':'' # ss) = Some (mm, None, ss)"
  using assms
  by (simp add: fullmatch_time_stamp_def Let_def takeWhile_digits_stop dropWhile_digits_stop
      match_seconds_def)

lemma fullmatch_added:
  assumes "mm \<noteq> []" "list_all is_digit mm" "a \<noteq> []" "list_all is_digit a"
    "length ss = 2" "list_all is_digit ss"
  shows "fullmatch_time_stamp (mm @ CHR ''+'' # a @ CHR '':'' # ss) = Some (mm, Some a, ss)"
  using assms
  by (simp add: fullmatch_time_stamp_def Let_def takeWhile_digits_stop dropWhile_digits_stop
      match_seconds_def)

lemma strip_digits_ends:
  assumes "s \<noteq> []" "is_digit (hd s)" "is_digit (last s)"
  shows "strip s = s"
  using assms by (simp add: strip_no_space_ends is_digit_not_space)

lemma list_all_last: "list_all P xs \<Longrightarrow> xs \<noteq> [] \<Longrightarrow> P (last xs)"
  by (simp add: list_all_iff)

lemma list_all_hd: "list_all P xs \<Longrightarrow> xs \<noteq> [] \<Longrightarrow> P (hd xs)"
  by (simp add: list_all_iff)

text \<open>
  C9: for every timestamp string made of a non-empty run of digits \<open>mm\<close>, optionally
  \<^verbatim>\<open>+\<close> and a non-empty run of digits \<open>a\<close>, then \<^verbatim>\<open>:\<close> and exactly two digits \<open>ss\<close>, the
  parser returns \<open>(minutes + added minutes) * 60 + seconds\<close>, the numbers being the decimal
  values of the three runs; and \<^verbatim>\<open>parse_time_stamp("45+2:10")\<close> is 2830.
\<close>

theorem parse_time_stamp_valid:
  assumes mm: "mm \<noteq> []" "list_all is_digit mm"
    and ss: "length ss = 2" "list_all is_digit ss"
    and ad: "\<forall>a. added = Some a \<longrightarrow> a \<noteq> [] \<and> list_all is_digit a"
  shows "parse_time_stamp (mm @ (case added of None \<Rightarrow> [] | Some a \<Rightarrow> CHR ''+'' # a) @ CHR '':'' # ss)
           = Inr ((int_of_digits mm + (case added of None \<Rightarrow> 0 | Some a \<Rightarrow> int_of_digits a)) * 60
                  + int_of_digits ss)
         \<and> parse_time_stamp ''45+2:10'' = Inr 2830"
proof
  let ?s = "mm @ (case added of None \<Rightarrow> [] | Some a \<Rightarrow> CHR ''+'' # a) @ CHR '':'' # ss"
  from ss have ssne: "ss \<noteq> []" by auto
  have ne: "?s \<noteq> []" using mm by simp
  have h: "is_digit (hd ?s)" using mm by (simp add: list_all_hd)
  have l: "is_digit (last ?s)" using ss ssne by (simp add: list_all_last)
  have st: "strip ?s = ?s" using ne h l by (rule strip_digits_ends)
  show "parse_time_stamp ?s
           = Inr ((int_of_digits mm + (case added of None \<Rightarrow> 0 | Some a \<Rightarrow> int_of_digits a)) * 60
                  + int_of_digits ss)"
  proof (cases added)
    case None
    then have "fullmatch_time_stamp (strip ?s) = Some (mm, None, ss)"
      using st fullmatch_plain [OF mm ss] by simp
    then show ?thesis using ne None by (simp add: parse_time_stamp_def)
  next
    case (Some a)
    with ad have a: "a \<noteq> []" "list_all is_digit a" by auto
    have "fullmatch_time_stamp (strip ?s) = Some (mm, Some a, ss)"
      using st fullmatch_added [OF mm a ss] Some by simp
    then show ?thesis using ne Some by (simp add: parse_time_stamp_def)
  qed
  show "parse_time_stamp ''45+2:10'' = Inr 2830"
    by (simp add: parse_time_stamp_def strip_def is_space_def is_digit_def fullmatch_time_stamp_def
        match_seconds_def int_of_digits_def digit_val_def Let_def)
qed

theorem parse_time_stamp_valid_witness:
  "list_all is_digit ''90'' \<and> list_all is_digit ''3'' \<and> list_all is_digit ''07''
   \<and> parse_time_stamp (''90'' @ (CHR ''+'' # ''3'') @ CHR '':'' # ''07'') = Inr ((90 + 3) * 60 + 7)"
  using parse_time_stamp_valid [of "''90''" "''07''" "Some ''3''"]
  by (simp add: is_digit_def int_of_digits_def digit_val_def)

subsection \<open>Category sanitizer\<close>

lemma is_safe_not_space: "is_safe c \<Longrightarrow> \<not> is_space c"
  by (auto simp: is_safe_def is_space_def Let_def)

lemma is_safe_lower: "is_safe c \<Longrightarrow> lower_char c = c"
  by (auto simp: is_safe_def lower_char_def Let_def)

lemma is_safe_not_amp: "is_safe c \<Longrightarrow> c \<noteq> CHR ''&''"
  by (auto simp: is_safe_def Let_def)

lemma lower_safe: "list_all is_safe s \<Longrightarrow> lower s = s"
  by (induction s) (auto simp: lower_def is_safe_lower)

lemma replace_amp_safe: "list_all is_safe s \<Longrightarrow> replace_amp s = s"
  by (induction s) (auto simp: is_safe_not_amp)

lemma sub_spaces_safe: "list_all is_safe s \<Longrightarrow> sub_spaces s = s"
  by (induction s) (auto simp: is_safe_not_space)

lemma filter_safe: "list_all is_safe s \<Longrightarrow> filter is_safe s = s"
  by (induction s) auto

lemma strip_safe: "list_all is_safe s \<Longrightarrow> strip s = s"
proof (cases "s = []")
  case True
  then show ?thesis by (simp add: strip_def)
next
  case False
  assume a: "list_all is_safe s"
  from a False have "\<not> is_space (hd s)" "\<not> is_space (last s)"
    by (simp_all add: list_all_hd list_all_last is_safe_not_space)
  with False show ?thesis by (simp add: strip_no_space_ends)
qed

lemma unknown_safe: "list_all is_safe ''unknown''"
  by (simp add: is_safe_def)

lemma sanitize_safe: "list_all is_safe (sanitize_event_name s)"
proof -
  have f: "list_all is_safe (filter is_safe x)" for x
    by (simp add: list_all_iff)
  show ?thesis
    unfolding sanitize_event_name_def Let_def
    by (rule if_split [THEN iffD2]) (intro conjI impI, rule unknown_safe, rule f)
qed

lemma sanitize_nonempty: "sanitize_event_name s \<noteq> []"
  by (simp add: sanitize_event_name_def Let_def)

lemma sanitize_fixed:
  assumes "list_all is_safe s" "s \<noteq> []"
  shows "sanitize_event_name (Some s) = s"
  using assms
  by (simp add: sanitize_event_name_def Let_def strip_safe lower_safe replace_amp_safe
      sub_spaces_safe filter_safe)

text \<open>
  C10: the category sanitizer is idempotent; its result is never empty and consists only of
  characters of \<^verbatim>\<open>[a-z0-9_-]\<close>; a missing input, an empty input and an input whose
  sanitized form is empty all give \<^verbatim>\<open>unknown\<close>.
\<close>

theorem sanitize_event_name_idempotent:
  "sanitize_event_name (Some (sanitize_event_name s)) = sanitize_event_name s
   \<and> sanitize_event_name s \<noteq> []
   \<and> list_all is_safe (sanitize_event_name s)
   \<and> sanitize_event_name None = ''unknown''
   \<and> sanitize_event_name (Some []) = ''unknown''
   \<and> (filter is_safe (sub_spaces (replace_amp (lower (strip t)))) = []
        \<longrightarrow> sanitize_event_name (Some t) = ''unknown'')"
proof (intro conjI impI)
  show "sanitize_event_name (Some (sanitize_event_name s)) = sanitize_event_name s"
    by (rule sanitize_fixed [OF sanitize_safe sanitize_nonempty])
  show "sanitize_event_name s \<noteq> []" by (rule sanitize_nonempty)
  show "list_all is_safe (sanitize_event_name s)" by (rule sanitize_safe)
  have u: "strip ''unknown'' = ''unknown''"
    by (rule strip_safe [OF unknown_safe])
  have f: "sanitize_event_name (Some ''unknown'') = ''unknown''"
    by (rule sanitize_fixed [OF unknown_safe]) simp
  show "sanitize_event_name None = ''unknown''"
    using f by (simp add: sanitize_event_name_def)
  show "sanitize_event_name (Some []) = ''unknown''"
    using f by (simp add: sanitize_event_name_def)
  assume e: "filter is_safe (sub_spaces (replace_amp (lower (strip t)))) = []"
  show "sanitize_event_name (Some t) = ''unknown''"
  proof (cases "t = []")
    case True
    then show ?thesis using f by (simp add: sanitize_event_name_def)
  next
    case False
    then show ?thesis using e by (simp add: sanitize_event_name_def Let_def)
  qed
qed

theorem sanitize_event_name_idempotent_witness:
  "sanitize_event_name (Some '' Yellow  Card & Foul! '') = ''yellow_card_and_foul''
   \<and> sanitize_event_name (Some (sanitize_event_name (Some '' Yellow  Card & Foul! '')))
       = ''yellow_card_and_foul''
   \<and> filter is_safe (sub_spaces (replace_amp (lower (strip ''?!'')))) = []
   \<and> sanitize_event_name (Some ''?!'') = ''unknown''"
proof -
  have a: "sanitize_event_name (Some '' Yellow  Card & Foul! '') = ''yellow_card_and_foul''"
    by code_simp
  have b: "filter is_safe (sub_spaces (replace_amp (lower (strip ''?!'')))) = []"
    by code_simp
  show ?thesis
    using sanitize_event_name_idempotent [of "Some '' Yellow  Card & Foul! ''" "''?!''"] a b
    by simp
qed

subsection \<open>Rounding\<close>

lemma py_round_of_int [simp]: "py_round (of_int n) = n"
  by (simp add: py_round_def)

lemma py_round_lower: "x - 1 / 2 \<le> of_int (py_round x)"
  unfolding py_round_def Let_def by (auto split: if_splits) linarith+

lemma py_round_upper: "of_int (py_round x) \<le> x + 1 / 2"
  unfolding py_round_def Let_def by (auto split: if_splits) linarith+

lemma py_round_mono:
  assumes "x \<le> y"
  shows "py_round x \<le> py_round y"
proof (cases "\<lfloor>x\<rfloor> = \<lfloor>y\<rfloor>")
  case True
  with assms show ?thesis
    unfolding py_round_def Let_def by (auto split: if_splits)
next
  case False
  with assms have lt: "\<lfloor>x\<rfloor> < \<lfloor>y\<rfloor>"
    using floor_mono [OF assms] by linarith
  have "py_round x \<le> \<lfloor>x\<rfloor> + 1"
    unfolding py_round_def Let_def by auto
  moreover have "\<lfloor>y\<rfloor> \<le> py_round y"
    unfolding py_round_def Let_def by auto
  ultimately show ?thesis using lt by linarith
qed

lemma py_round_mult_mono:
  assumes "0 < f" "x \<le> y"
  shows "py_round (x * f) \<le> py_round (y * f)"
  using assms by (intro py_round_mono) (simp add: mult_right_mono)


subsection \<open>Window calculator\<close>

lemma py_round_numeral [simp]: "py_round (numeral n) = numeral n"
  using py_round_of_int [of "numeral n"] by simp

lemma py_round_0 [simp]: "py_round 0 = 0"
  using py_round_of_int [of 0] by simp

text \<open>
  C5: the window of an event at \<open>e\<close> has \<open>start_sec = max 0 (e - before_sec)\<close>,
  \<open>end_sec = min d (e + after_sec)\<close> and the two frame indices are the rounded products
  with the frame rate. For \<open>d = 100\<close> and paddings of 15, the event at 5 gives the seconds
  0 and 20, and the event at 98 gives \<open>end_sec = 100\<close>.
\<close>

theorem window_calc_clamps:
  "start_sec (window_calc e before_sec after_sec d f) = max 0 (e - before_sec)
   \<and> end_sec (window_calc e before_sec after_sec d f) = min d (e + after_sec)
   \<and> start_f (window_calc e before_sec after_sec d f)
       = py_round (start_sec (window_calc e before_sec after_sec d f) * f)
   \<and> end_f (window_calc e before_sec after_sec d f)
       = py_round (end_sec (window_calc e before_sec after_sec d f) * f)
   \<and> start_sec (window_calc 5 15 15 100 f) = 0
   \<and> end_sec (window_calc 5 15 15 100 f) = 20
   \<and> end_sec (window_calc 98 15 15 100 f) = 100
   \<and> window_calc 98 15 15 100 25 = \<lparr>start_sec = 83, end_sec = 100, start_f = 2075, end_f = 2500\<rparr>"
  by (simp add: window_calc_def Let_def)

text \<open>
  C6 as stated fails: an event that lies more than \<open>before_sec\<close> after the end of the video
  has \<open>end_sec < start_sec\<close> and \<open>duration < start_sec\<close>.
\<close>

theorem window_order_counterexample:
  "(0::rat) \<le> 200 \<and> (0::rat) \<le> 15 \<and> (0::rat) \<le> 100 \<and> (0::rat) < 25
   \<and> \<not> (start_sec (window_calc 200 15 15 100 25) \<le> end_sec (window_calc 200 15 15 100 25))
   \<and> \<not> (start_sec (window_calc 200 15 15 100 25) \<le> 100)"
  by (simp add: window_calc_def Let_def)

text \<open>
  C6, amended: for an event time, paddings and duration that are not negative and a positive
  frame rate, every window has \<open>0 \<le> start_sec\<close> and \<open>end_sec \<le> duration\<close>; it has
  \<open>start_sec \<le> end_sec\<close> when the event lies at most \<open>before_sec\<close> after the end of the
  video, and otherwise \<open>end_sec < start_sec\<close> and \<open>end_f \<le> start_f\<close>; a window with
  \<open>start_f < end_f\<close> has \<open>start_sec < end_sec\<close>; and a window with \<open>end_f \<le> start_f\<close>
  makes \<^verbatim>\<open>write_clip_and_frames\<close> return at once, with no exception and nothing written.
\<close>

theorem window_invariant:
  assumes "0 \<le> e" "0 \<le> before_sec" "0 \<le> after_sec" "0 \<le> d" "0 < f"
  shows "0 \<le> start_sec (window_calc e before_sec after_sec d f)
   \<and> end_sec (window_calc e before_sec after_sec d f) \<le> d
   \<and> (e - before_sec \<le> d \<longrightarrow>
        start_sec (window_calc e before_sec after_sec d f)
          \<le> end_sec (window_calc e before_sec after_sec d f))
   \<and> (d < e - before_sec \<longrightarrow>
        end_sec (window_calc e before_sec after_sec d f)
          < start_sec (window_calc e before_sec after_sec d f)
        \<and> end_f (window_calc e before_sec after_sec d f)
          \<le> start_f (window_calc e before_sec after_sec d f))
   \<and> (start_f (window_calc e before_sec after_sec d f)
          < end_f (window_calc e before_sec after_sec d f) \<longrightarrow>
        start_sec (window_calc e before_sec after_sec d f)
          < end_sec (window_calc e before_sec after_sec d f))
   \<and> (end_f (window_calc e before_sec after_sec (duration_sec v) (fps v))
          \<le> start_f (window_calc e before_sec after_sec (duration_sec v) (fps v)) \<longrightarrow>
        write_clip_and_frames sc writer_opens v e before_sec after_sec tag event_name
          = No_valid_range)"
proof -
  let ?w = "window_calc e before_sec after_sec d f"
  have s: "start_sec ?w = max 0 (e - before_sec)" and t: "end_sec ?w = min d (e + after_sec)"
    and sf: "start_f ?w = py_round (start_sec ?w * f)" and ef: "end_f ?w = py_round (end_sec ?w * f)"
    by (simp_all add: window_calc_def Let_def)
  have 1: "0 \<le> start_sec ?w" by (simp add: s)
  have 2: "end_sec ?w \<le> d" by (simp add: t)
  have 3: "start_sec ?w \<le> end_sec ?w" if "e - before_sec \<le> d"
    using that assms by (simp add: s t)
  have 4: "end_sec ?w < start_sec ?w" if "d < e - before_sec"
    using that assms by (simp add: s t)
  have 5: "end_f ?w \<le> start_f ?w" if "end_sec ?w \<le> start_sec ?w"
    unfolding sf ef using assms(5) that by (rule py_round_mult_mono)
  have 6: "start_sec ?w < end_sec ?w" if "start_f ?w < end_f ?w"
    using 5 that by (meson not_le)
  have 7: "write_clip_and_frames sc writer_opens v e before_sec after_sec tag event_name
          = No_valid_range"
    if "end_f (window_calc e before_sec after_sec (duration_sec v) (fps v))
          \<le> start_f (window_calc e before_sec after_sec (duration_sec v) (fps v))"
    using that by (simp add: write_clip_and_frames_def Let_def)
  show ?thesis
    using 1 2 3 4 5 6 7 by (meson less_imp_le)
qed

theorem window_invariant_witness:
  "(5::rat) - 15 \<le> 100
   \<and> start_sec (window_calc 5 15 15 100 25) \<le> end_sec (window_calc 5 15 15 100 25)
   \<and> (100::rat) < 200 - 15
   \<and> end_f (window_calc 200 15 15 100 25) \<le> start_f (window_calc 200 15 15 100 25)
   \<and> write_clip_and_frames SoccerProj (\<lambda>n. True)
        \<lparr>opened = True, fps = 25, frame_count = 2500, width = 1280, height = 720,
         readable = (\<lambda>p. p < 2500)\<rparr> 200 15 15 ''03-20.000'' None = No_valid_range"
  using window_invariant [where e = 5 and before_sec = 15 and after_sec = 15 and d = 100 and f = 25]
    window_invariant [where e = 200 and before_sec = 15 and after_sec = 15 and d = 100 and f = 25
      and v = "\<lparr>opened = True, fps = 25, frame_count = 2500, width = 1280, height = 720,
         readable = (\<lambda>p. p < 2500)\<rparr>" and sc = SoccerProj and writer_opens = "\<lambda>n. True"
      and tag = "''03-20.000''" and event_name = None]
  by (simp add: window_calc_def duration_sec_def)

subsection \<open>The read loop\<close>

lemma read_loop_char:
  "read_loop v idxs E pos idx wrote saved =
     (wrote + length (takeWhile (readable v) [pos..pos + (E - idx) - 1]),
      saved @ filter (\<lambda>i. i \<in> idxs)
        [idx..idx + int (length (takeWhile (readable v) [pos..pos + (E - idx) - 1])) - 1])"
proof (induction v idxs E pos idx wrote saved rule: read_loop.induct)
  case (1 v idxs E pos idx wrote saved)
  show ?case
  proof (cases "idx < E")
    case False
    then show ?thesis by (simp add: read_loop.simps [of v idxs E pos idx])
  next
    case True
    then have up: "[pos..pos + (E - idx) - 1] = pos # [pos + 1..pos + 1 + (E - (idx + 1)) - 1]"
      by (subst upto_rec1) (simp_all add: algebra_simps)
    show ?thesis
    proof (cases "readable v pos")
      case False
      with True show ?thesis
        by (simp add: read_loop.simps [of v idxs E pos idx] up)
    next
      case r: True
      let ?n = "length (takeWhile (readable v) [pos + 1..pos + 1 + (E - (idx + 1)) - 1])"
      have tw: "length (takeWhile (readable v) [pos..pos + (E - idx) - 1]) = Suc ?n"
        using r by (simp add: up)
      have ls: "[idx..idx + int (Suc ?n) - 1] = idx # [idx + 1..idx + 1 + int ?n - 1]"
        by (subst upto_rec1) (simp_all add: algebra_simps)
      from True r have
        "read_loop v idxs E pos idx wrote saved =
           read_loop v idxs E (pos + 1) (idx + 1) (wrote + 1)
             (if idx \<in> idxs then saved @ [idx] else saved)"
        by (simp add: read_loop.simps [of v idxs E pos idx])
      also have "\<dots> = (wrote + 1 + ?n,
          (if idx \<in> idxs then saved @ [idx] else saved)
            @ filter (\<lambda>i. i \<in> idxs) [idx + 1..idx + 1 + int ?n - 1])"
        using "1.IH" [OF True] r by simp
      finally show ?thesis
        unfolding tw ls by simp
    qed
  qed
qed

lemma takeWhile_stop_length:
  "\<not> P p \<Longrightarrow> length (takeWhile P (xs @ p # ys)) \<le> length xs"
  by (induction xs) auto

lemma takeWhile_upto_le:
  assumes "s \<le> p" "p \<le> t" "\<not> P p"
  shows "int (length (takeWhile P [s..t])) \<le> p - s"
proof -
  have "[s..t] = [s..p - 1] @ p # [p + 1..t]"
    using assms(1,2) by (rule upto_split3)
  then have "length (takeWhile P [s..t]) \<le> length [s..p - 1]"
    using takeWhile_stop_length [of P p "[s..p - 1]" "[p + 1..t]"] assms(3) by simp
  then show ?thesis using assms(1) by simp
qed

lemma takeWhile_all_upto:
  assumes "\<forall>p\<in>{s..t}. P p"
  shows "takeWhile P [s..t] = [s..t]"
  using assms by simp

lemma write_clip_Wrote:
  assumes "write_clip_and_frames sc writer_opens v e before_sec after_sec tag event_name
             = Wrote name n saved"
  defines "w \<equiv> window_calc e before_sec after_sec (duration_sec v) (fps v)"
  shows "start_f w < end_f w"
    and "name = clip_name sc (sanitize_event_name event_name) tag w"
    and "n = length (takeWhile (readable v) [start_f w..end_f w - 1])"
    and "saved = filter (\<lambda>i. i \<in> save_idxs sc w before_sec after_sec (fps v))
                   [start_f w..start_f w + int n - 1]"
  using assms(1) unfolding w_def
  by (auto simp add: write_clip_and_frames_def Let_def read_loop_char split: if_splits)

subsection \<open>Evaluating a job at a concrete input\<close>

lemma replicate_numeral: "replicate (numeral k) x = x # replicate (pred_numeral k) x"
  by (simp add: numeral_eq_Suc)

lemmas digits_eval =
  digits.simps [of 0] digits.simps [of 1] digits.simps [of "Suc 0"] digits.simps [of "numeral k"] for k

lemmas fmt_eval = clip_name_def fmt_f3_def fmt_d_def zfill_def digits_eval digit_char_def Let_def
  replicate_numeral

lemmas upt_eval = upt_rec [of 0 "numeral n"] upt_rec [of "Suc 0" "numeral n"] for n

lemmas upto_eval = upto.simps [of 0 "numeral n"] upto.simps [of 1 "numeral n"] for n

lemma sanitize_None: "sanitize_event_name None = ''unknown''"
  using sanitize_fixed [OF unknown_safe] by (simp add: sanitize_event_name_def)

lemma write_clip_WroteI:
  assumes "w = window_calc e before_sec after_sec (duration_sec v) (fps v)"
    and "start_f w < end_f w"
    and "writer_opens (clip_name sc (sanitize_event_name event_name) tag w)"
  shows "write_clip_and_frames sc writer_opens v e before_sec after_sec tag event_name
           = Wrote (clip_name sc (sanitize_event_name event_name) tag w)
               (length (takeWhile (readable v) [start_f w..end_f w - 1]))
               (filter (\<lambda>i. i \<in> save_idxs sc w before_sec after_sec (fps v))
                  [start_f w..start_f w
                     + int (length (takeWhile (readable v) [start_f w..end_f w - 1])) - 1])"
  using assms by (simp add: write_clip_and_frames_def Let_def read_loop_char)

subsection \<open>Frames written by a job\<close>

text \<open>
  C8: a job that wrote a clip recorded a count of frames that is at most
  \<open>end_f - start_f\<close>. The count is the number of frames read before the first failing read
  (or before \<open>end_f\<close>), so a read that fails at frame \<open>p\<close> of the window leaves a count of
  at most \<open>p - start_f\<close>.
\<close>

theorem wrote_at_most_window:
  assumes "write_clip_and_frames sc writer_opens v e before_sec after_sec tag event_name
             = Wrote name n saved"
  shows "int n \<le> end_f (window_calc e before_sec after_sec (duration_sec v) (fps v))
                  - start_f (window_calc e before_sec after_sec (duration_sec v) (fps v))
    \<and> n = length (takeWhile (readable v)
              [start_f (window_calc e before_sec after_sec (duration_sec v) (fps v))
               ..end_f (window_calc e before_sec after_sec (duration_sec v) (fps v)) - 1])
    \<and> (\<forall>p. start_f (window_calc e before_sec after_sec (duration_sec v) (fps v)) \<le> p
          \<and> p < end_f (window_calc e before_sec after_sec (duration_sec v) (fps v))
          \<and> \<not> readable v p
          \<longrightarrow> int n \<le> p - start_f (window_calc e before_sec after_sec (duration_sec v) (fps v)))"
proof -
  let ?w = "window_calc e before_sec after_sec (duration_sec v) (fps v)"
  have lt: "start_f ?w < end_f ?w"
    and n: "n = length (takeWhile (readable v) [start_f ?w..end_f ?w - 1])"
    using write_clip_Wrote [OF assms] by simp_all
  have "length (takeWhile (readable v) [start_f ?w..end_f ?w - 1]) \<le> length [start_f ?w..end_f ?w - 1]"
    by (rule length_takeWhile_le)
  then have 1: "int n \<le> end_f ?w - start_f ?w"
    using lt n by simp
  have 3: "int n \<le> p - start_f ?w"
    if "start_f ?w \<le> p \<and> p < end_f ?w \<and> \<not> readable v p" for p
    unfolding n using that by (intro takeWhile_upto_le) simp_all
  show ?thesis using 1 n 3 by blast
qed

theorem wrote_at_most_window_witness:
  "write_clip_and_frames SoccerProj (\<lambda>n. True)
     \<lparr>opened = True, fps = 1, frame_count = 100, width = 1280, height = 720,
      readable = (\<lambda>p. p < 3)\<rparr> 5 15 15 ''00-05.000'' None
     = Wrote ''clip_00-05.000_0000.000s_to_0020.000s.mp4'' 3 [0, 1, 2]
   \<and> int 3 \<le> 20 - 0"
proof -
  let ?v = "\<lparr>opened = True, fps = 1, frame_count = 100, width = 1280, height = 720,
      readable = (\<lambda>p. p < 3)\<rparr>"
  have w: "window_calc 5 15 15 (duration_sec ?v) (fps ?v)
            = \<lparr>start_sec = 0, end_sec = 20, start_f = 0, end_f = 20\<rparr>"
    by (simp add: window_calc_def duration_sec_def)
  have n: "clip_name SoccerProj ''unknown'' ''00-05.000''
             \<lparr>start_sec = 0, end_sec = 20, start_f = 0, end_f = 20\<rparr>
           = ''clip_00-05.000_0000.000s_to_0020.000s.mp4''"
    by (simp add: fmt_eval)
  have t: "takeWhile (\<lambda>p. p < 3) [0..19] = [0, 1, 2::int]"
    by (simp add: upto_eval)
  have s: "i \<in> {0, 1, 2} \<Longrightarrow> i \<in> save_idxs SoccerProj
              \<lparr>start_sec = 0, end_sec = 20, start_f = 0, end_f = 20\<rparr> 15 15 1" for i
    by (auto simp: save_idxs_def py_int_def range0_def image_iff Bex_def; presburger)
  have h: "write_clip_and_frames SoccerProj (\<lambda>n. True) ?v 5 15 15 ''00-05.000'' None
     = Wrote ''clip_00-05.000_0000.000s_to_0020.000s.mp4'' 3 [0, 1, 2]"
    by (subst write_clip_WroteI [OF w [symmetric]]) (simp_all add: sanitize_None n t s upto_eval)
  show ?thesis
    using wrote_at_most_window [OF h] h by (simp add: w)
qed

subsection \<open>Frame sampling\<close>

lemma window_length_le:
  "end_sec (window_calc e before_sec after_sec d f) - start_sec (window_calc e before_sec after_sec d f)
     \<le> after_sec + before_sec"
  by (simp add: window_calc_def Let_def min_def max_def)

lemma window_frames:
  "start_f (window_calc e before_sec after_sec d f)
     = py_round (start_sec (window_calc e before_sec after_sec d f) * f)"
  "end_f (window_calc e before_sec after_sec d f)
     = py_round (end_sec (window_calc e before_sec after_sec d f) * f)"
  by (simp_all add: window_calc_def Let_def)

lemma set_range0: "set (range0 n) = int ` {k. int k < n}"
  by (auto simp: range0_def image_iff)

lemma save_idxs_image:
  "save_idxs sc w before_sec after_sec f =
     (\<lambda>k. py_round ((start_sec w + of_nat k) * f)) `
       {k. int k < (if sc = Extract_clips_frames_label then py_round (end_sec w - start_sec w)
                    else py_int (after_sec + before_sec)) + 1}"
  by (cases sc) (simp_all add: save_idxs_def Let_def set_range0 image_image)

lemma idx_lower:
  assumes "0 < f" "start_f w = py_round (start_sec w * f)"
  shows "start_f w \<le> py_round ((start_sec w + of_nat k) * f)"
  unfolding assms(2) using assms(1) by (intro py_round_mult_mono) simp_all

lemma idx_upper:
  assumes "0 < f" "end_f w = py_round (end_sec w * f)" "end_sec w - start_sec w \<le> of_nat k"
  shows "end_f w \<le> py_round ((start_sec w + of_nat k) * f)"
  unfolding assms(2) using assms(1,3) by (intro py_round_mult_mono) simp_all

lemma cover_int:
  assumes "(of_nat k :: rat) < x" "x \<le> y"
  shows "int k < py_int y + 1"
proof -
  from assms have "0 \<le> y" "of_int (int k) \<le> y"
    by (simp_all add: order.trans [OF of_nat_0_le_iff less_imp_le] less_imp_le order.trans)
  then have "int k \<le> \<lfloor>y\<rfloor>" by (simp add: le_floor_iff)
  then show ?thesis using \<open>0 \<le> y\<close> by (simp add: py_int_def)
qed

lemma cover_round:
  assumes "(of_nat k :: rat) < x"
  shows "int k < py_round x + 1"
proof -
  have "x - 1 / 2 \<le> of_int (py_round x)" by (rule py_round_lower)
  with assms have "(of_int (int k) :: rat) < of_int (py_round x + 1)" by simp
  then show ?thesis by (simp only: of_int_less_iff)
qed

lemma save_idxs_below_end:
  assumes f: "0 < f" and w: "w = window_calc e before_sec after_sec d f"
  shows "{i \<in> save_idxs sc w before_sec after_sec f. i < end_f w}
           = {i \<in> spec_SampleSet w f. i < end_f w}"
proof -
  have ef: "end_f w = py_round (end_sec w * f)" unfolding w by (rule window_frames)
  have len: "end_sec w - start_sec w \<le> after_sec + before_sec"
    unfolding w by (rule window_length_le)
  have strict: "of_nat k < end_sec w - start_sec w"
    if "py_round ((start_sec w + of_nat k) * f) < end_f w" for k
    using idx_upper [OF f ef, of k] that by (meson not_le)
  have cover: "int k < (if sc = Extract_clips_frames_label then py_round (end_sec w - start_sec w)
                    else py_int (after_sec + before_sec)) + 1"
    if "of_nat k < end_sec w - start_sec w" for k
    using that cover_int [OF that len] cover_round [OF that] by simp
  show ?thesis
  proof (intro set_eqI iffI)
    fix i assume "i \<in> {i \<in> save_idxs sc w before_sec after_sec f. i < end_f w}"
    then obtain k where i: "i = py_round ((start_sec w + of_nat k) * f)" and lt: "i < end_f w"
      by (auto simp: save_idxs_image)
    from strict lt i have "of_nat k \<le> end_sec w - start_sec w" by (simp add: less_imp_le)
    with i lt show "i \<in> {i \<in> spec_SampleSet w f. i < end_f w}"
      by (auto simp: spec_SampleSet_def)
  next
    fix i assume "i \<in> {i \<in> spec_SampleSet w f. i < end_f w}"
    then obtain k where i: "i = py_round ((start_sec w + of_nat k) * f)" and lt: "i < end_f w"
      by (auto simp: spec_SampleSet_def)
    from strict lt i have "of_nat k < end_sec w - start_sec w" by simp
    then have "int k < (if sc = Extract_clips_frames_label then py_round (end_sec w - start_sec w)
                    else py_int (after_sec + before_sec)) + 1" by (rule cover)
    with i lt show "i \<in> {i \<in> save_idxs sc w before_sec after_sec f. i < end_f w}"
      unfolding save_idxs_image by blast
  qed
qed

lemma save_idxs_lower:
  assumes "0 < f" "w = window_calc e before_sec after_sec d f"
    "i \<in> save_idxs sc w before_sec after_sec f \<or> i \<in> spec_SampleSet w f"
  shows "start_f w \<le> i"
proof -
  have sf: "start_f w = py_round (start_sec w * f)" unfolding assms(2) by (rule window_frames)
  from assms(3) obtain k where "i = py_round ((start_sec w + of_nat k) * f)"
    by (auto simp: save_idxs_image spec_SampleSet_def)
  then show ?thesis using idx_lower [OF assms(1) sf] by simp
qed

lemma py_round_of_nat_mult: "py_round (of_nat k * numeral c) = int k * numeral c"
  using py_round_of_int [of "int k * numeral c"] by simp

text \<open>
  C2 as stated fails. For the video of 100 seconds at 25 frames per second and the event at
  5 seconds, the window is clamped to 0 to 20 seconds, frames 0 to 500. The scripts that
  count the samples up to \<open>before_sec + after_sec\<close> select frame 750, which is not in the
  specified set; and the specified set, like every script's selection, holds frame 500,
  which is \<open>end_f\<close> and so outside the half-open range of the window.
\<close>

theorem save_idxs_counterexample:
  "save_idxs SoccerProj (window_calc 5 15 15 100 25) 15 15 25
     \<noteq> spec_SampleSet (window_calc 5 15 15 100 25) 25
   \<and> save_idxs Extract_clips_frames (window_calc 5 15 15 100 25) 15 15 25
     \<noteq> spec_SampleSet (window_calc 5 15 15 100 25) 25
   \<and> 500 \<in> spec_SampleSet (window_calc 5 15 15 100 25) 25
   \<and> 500 \<in> save_idxs Extract_clips_frames_label (window_calc 5 15 15 100 25) 15 15 25
   \<and> \<not> 500 < end_f (window_calc 5 15 15 100 25)"
proof -
  let ?w = "window_calc 5 15 15 100 25"
  have w: "?w = \<lparr>start_sec = 0, end_sec = 20, start_f = 0, end_f = 500\<rparr>"
    by (simp add: window_calc_def)
  have out: "750 \<notin> spec_SampleSet ?w 25"
    by (auto simp: w spec_SampleSet_def py_round_of_nat_mult)
  have in1: "750 \<in> save_idxs SoccerProj ?w 15 15 25"
    unfolding save_idxs_image w
    by (auto simp: py_int_def py_round_of_nat_mult image_iff intro!: exI [of _ 30])
  have in1': "750 \<in> save_idxs Extract_clips_frames ?w 15 15 25"
    unfolding save_idxs_image w
    by (auto simp: py_int_def py_round_of_nat_mult image_iff intro!: exI [of _ 30])
  have in2: "500 \<in> spec_SampleSet ?w 25"
    by (auto simp: w spec_SampleSet_def py_round_of_nat_mult intro!: exI [of _ 20])
  have in3: "500 \<in> save_idxs Extract_clips_frames_label ?w 15 15 25"
    unfolding save_idxs_image w
    by (auto simp: py_round_of_nat_mult image_iff intro!: exI [of _ 20])
  have e: "\<not> 500 < end_f ?w" by (simp add: w)
  from out in1 in1' in2 in3 e
  show ?thesis by auto
qed

text \<open>
  C2, amended: for every extraction job that writes a clip, with a positive frame rate,
  every selected index and every index of the specified set is at least \<open>start_f\<close>; the
  selected indices below \<open>end_f\<close> are exactly the indices below \<open>end_f\<close> of the specified set,
  in every script and for clamped windows too; the frames written as still images have
  their indices in the specified set and in \<open>[start_f, end_f)\<close>, and when no read fails
  they are exactly the indices of the specified set that lie in \<open>[start_f, end_f)\<close>.
\<close>

theorem persisted_frames:
  assumes f: "0 < fps v"
    and job: "write_clip_and_frames sc writer_opens v e before_sec after_sec tag event_name
                = Wrote name n saved"
  defines "w \<equiv> window_calc e before_sec after_sec (duration_sec v) (fps v)"
  shows "{i \<in> save_idxs sc w before_sec after_sec (fps v). i < end_f w}
           = {i \<in> spec_SampleSet w (fps v). i < end_f w}
    \<and> (\<forall>i \<in> save_idxs sc w before_sec after_sec (fps v) \<union> spec_SampleSet w (fps v). start_f w \<le> i)
    \<and> set saved \<subseteq> {i \<in> spec_SampleSet w (fps v). start_f w \<le> i \<and> i < end_f w}
    \<and> ((\<forall>p. start_f w \<le> p \<and> p < end_f w \<longrightarrow> readable v p) \<longrightarrow>
         set saved = {i \<in> spec_SampleSet w (fps v). start_f w \<le> i \<and> i < end_f w})"
proof -
  let ?S = "save_idxs sc w before_sec after_sec (fps v)"
  have wd: "w = window_calc e before_sec after_sec (duration_sec v) (fps v)"
    by (simp add: w_def)
  have eq: "{i \<in> ?S. i < end_f w} = {i \<in> spec_SampleSet w (fps v). i < end_f w}"
    using f wd by (rule save_idxs_below_end)
  have lo: "start_f w \<le> i" if "i \<in> ?S \<or> i \<in> spec_SampleSet w (fps v)" for i
    using f wd that by (rule save_idxs_lower)
  have n: "n = length (takeWhile (readable v) [start_f w..end_f w - 1])"
    and sv: "saved = filter (\<lambda>i. i \<in> ?S) [start_f w..start_f w + int n - 1]"
    and lt: "start_f w < end_f w"
    using write_clip_Wrote [OF job] unfolding w_def by simp_all
  have "n \<le> length [start_f w..end_f w - 1]"
    unfolding n by (rule length_takeWhile_le)
  then have nle: "int n \<le> end_f w - start_f w" using lt by simp
  have sub: "set saved \<subseteq> {i \<in> spec_SampleSet w (fps v). start_f w \<le> i \<and> i < end_f w}"
  proof
    fix i assume "i \<in> set saved"
    then have i: "i \<in> ?S" "start_f w \<le> i" "i < end_f w"
      using nle by (auto simp: sv)
    then have "i \<in> {i \<in> ?S. i < end_f w}" by simp
    then have "i \<in> spec_SampleSet w (fps v)" unfolding eq by simp
    with i show "i \<in> {i \<in> spec_SampleSet w (fps v). start_f w \<le> i \<and> i < end_f w}" by simp
  qed
  have full: "set saved = {i \<in> spec_SampleSet w (fps v). start_f w \<le> i \<and> i < end_f w}"
    if r: "\<forall>p. start_f w \<le> p \<and> p < end_f w \<longrightarrow> readable v p"
  proof -
    have tw: "takeWhile (readable v) [start_f w..end_f w - 1] = [start_f w..end_f w - 1]"
      using r by (intro takeWhile_all_upto) simp
    have "int n = end_f w - start_f w" unfolding n tw using lt by simp
    then have "set saved = {i \<in> ?S. start_f w \<le> i \<and> i < end_f w}"
      by (auto simp: sv)
    also have "\<dots> = {i \<in> {i \<in> ?S. i < end_f w}. start_f w \<le> i}" by auto
    also have "\<dots> = {i \<in> spec_SampleSet w (fps v). start_f w \<le> i \<and> i < end_f w}"
      unfolding eq by auto
    finally show ?thesis .
  qed
  show ?thesis using eq lo sub full by blast
qed

theorem persisted_frames_witness:
  "0 < fps \<lparr>opened = True, fps = 1, frame_count = 100, width = 1280, height = 720,
             readable = (\<lambda>p. True)\<rparr>
   \<and> write_clip_and_frames SoccerProj (\<lambda>n. True)
        \<lparr>opened = True, fps = 1, frame_count = 100, width = 1280, height = 720,
         readable = (\<lambda>p. True)\<rparr> 1 2 2 ''00-01.000'' None
      = Wrote ''clip_00-01.000_0000.000s_to_0003.000s.mp4'' 3 [0, 1, 2]
   \<and> set [0, 1, 2]
      = {i \<in> spec_SampleSet \<lparr>start_sec = 0, end_sec = 3, start_f = 0, end_f = 3\<rparr> 1. 0 \<le> i \<and> i < 3}"
proof -
  let ?v = "\<lparr>opened = True, fps = 1, frame_count = 100, width = 1280, height = 720,
      readable = (\<lambda>p. True)\<rparr>"
  have f: "0 < fps ?v" by simp
  have w: "window_calc 1 2 2 (duration_sec ?v) (fps ?v)
            = \<lparr>start_sec = 0, end_sec = 3, start_f = 0, end_f = 3\<rparr>"
    by (simp add: window_calc_def duration_sec_def)
  have n: "clip_name SoccerProj ''unknown'' ''00-01.000''
             \<lparr>start_sec = 0, end_sec = 3, start_f = 0, end_f = 3\<rparr>
           = ''clip_00-01.000_0000.000s_to_0003.000s.mp4''"
    by (simp add: fmt_eval)
  have s: "i \<in> {0, 1, 2} \<Longrightarrow> i \<in> save_idxs SoccerProj
              \<lparr>start_sec = 0, end_sec = 3, start_f = 0, end_f = 3\<rparr> 2 2 1" for i
    by (auto simp: save_idxs_def py_int_def range0_def image_iff Bex_def; presburger)
  have h: "write_clip_and_frames SoccerProj (\<lambda>n. True) ?v 1 2 2 ''00-01.000'' None
     = Wrote ''clip_00-01.000_0000.000s_to_0003.000s.mp4'' 3 [0, 1, 2]"
    by (subst write_clip_WroteI [OF w [symmetric]]) (simp_all add: sanitize_None n s upto_eval)
  have w': "window_calc 1 2 2 (duration_sec ?v) 1
            = \<lparr>start_sec = 0, end_sec = 3, start_f = 0, end_f = 3\<rparr>"
    using w by simp
  show ?thesis
    using persisted_frames [OF f h] h by (simp add: w')
qed

subsection \<open>Deduplication\<close>

lemma label_pairs_keys:
  "set (map label_key (label_pairs seen cs))
     = (\<lambda>c. (half c, get_time_stamp c,
              case comments_type c of None \<Rightarrow> ''unknown'' | Some e \<Rightarrow> e)) `
         {c \<in> set cs. get_time_stamp c \<noteq> []} - seen
   \<and> distinct (map label_key (label_pairs seen cs))"
proof (induction cs arbitrary: seen)
  case Nil
  then show ?case by simp
next
  case (Cons c cs)
  let ?k = "(half c, get_time_stamp c, case comments_type c of None \<Rightarrow> ''unknown'' | Some e \<Rightarrow> e)"
  show ?case
  proof (cases "get_time_stamp c = []")
    case True
    then show ?thesis using Cons.IH [of seen] by (simp add: Let_def) blast
  next
    case ts: False
    show ?thesis
    proof (cases "?k \<in> seen")
      case True
      then show ?thesis using ts Cons.IH [of seen] by (simp add: Let_def) blast
    next
      case False
      then show ?thesis using ts Cons.IH [of "insert ?k seen"]
        by (simp add: Let_def label_key_def) blast
    qed
  qed
qed

lemma parse_bad: "parse_time_stamp ''abc'' = Inl (Unrecognized_time_format ''abc'')"
  by (simp add: parse_time_stamp_def strip_def is_space_def is_digit_def fullmatch_time_stamp_def
      Let_def)

lemma parse_10_00: "parse_time_stamp ''10:00'' = Inr 600"
  by (simp add: parse_time_stamp_def strip_def is_space_def is_digit_def fullmatch_time_stamp_def
      match_seconds_def int_of_digits_def digit_val_def Let_def)

text \<open>
  C3 holds in \<^verbatim>\<open>extract_clips_frames_label.py\<close>, whose key is \<^verbatim>\<open>(half, ts, event)\<close>, as
  \<open>label_pairs_keys\<close> shows. In \<^verbatim>\<open>newExtractFrames.py\<close> the key is the timestamp alone:
  of the three records of the specification's example, only one is kept, and the event of
  category \<^verbatim>\<open>card\<close> is lost.
\<close>

theorem new_ts_list_same_timestamp:
  "new_ts_list {}
     [\<lparr>time_stamp = Some ''10:00'', comments_type = Some ''goal'', half = Some 1\<rparr>,
      \<lparr>time_stamp = Some ''10:00'', comments_type = Some ''goal'', half = Some 1\<rparr>,
      \<lparr>time_stamp = Some ''10:00'', comments_type = Some ''card'', half = Some 1\<rparr>]
     = [(''10:00'', ''goal'')]
   \<and> label_pairs {}
     [\<lparr>time_stamp = Some ''10:00'', comments_type = Some ''goal'', half = Some 1\<rparr>,
      \<lparr>time_stamp = Some ''10:00'', comments_type = Some ''goal'', half = Some 1\<rparr>,
      \<lparr>time_stamp = Some ''10:00'', comments_type = Some ''card'', half = Some 1\<rparr>]
     = [(''10:00'', ''goal'', Some 1), (''10:00'', ''card'', Some 1)]"
  by (simp add: get_time_stamp_def Let_def)

subsection \<open>A malformed timestamp in a half\<close>

lemma keys_of_fail:
  "x \<in> set xs \<Longrightarrow> key x = Inl e \<Longrightarrow> \<exists>e'. keys_of key xs = Inl e'"
  by (induction xs) (auto split: sum.splits)

lemma process_half_aborts:
  assumes "opened v" "t \<in> set timestamps" "parse_time_stamp t = Inl e"
  shows "\<exists>e'. process_half writer_opens v timestamps = ([], Some e')"
proof -
  from keys_of_fail [of t timestamps parse_time_stamp e] assms(2,3) obtain e' where "keys_of parse_time_stamp timestamps = Inl e'"
    by blast
  then show ?thesis using assms(1) by (simp add: process_half_def sorted_by_def)
qed

text \<open>
  C1 fails in the code. The loop over the events does skip an event whose timestamp does
  not parse, as the claim says; but the list is sorted first, with \<^verbatim>\<open>parse_time_stamp\<close>
  as the key and outside the \<^verbatim>\<open>try\<close>, so one malformed timestamp raises before any event
  of the half is processed. Here the half holds the events \<^verbatim>\<open>10:00\<close> and \<^verbatim>\<open>abc\<close>.
\<close>

theorem process_half_malformed_aborts:
  "process_half writer_opens (v\<lparr>opened := True\<rparr>) [''10:00'', ''abc'']
     = ([], Some (Unrecognized_time_format ''abc''))
   \<and> label_sorted_pairs
       [\<lparr>time_stamp = Some ''10:00'', comments_type = Some ''goal'', half = Some 1\<rparr>,
        \<lparr>time_stamp = Some ''abc'', comments_type = Some ''goal'', half = Some 1\<rparr>]
     = Inl (Unrecognized_time_format ''abc'')
   \<and> event_loop SoccerProj writer_opens v [(''abc'', None)]
     = ([Skipping_bad_timestamp ''abc'' (Unrecognized_time_format ''abc'')], None)"
  by (simp add: process_half_def sorted_by_def label_sorted_pairs_def get_time_stamp_def
      parse_bad parse_10_00)

subsection \<open>Decimal digits\<close>










subsection \<open>Tags and clip names\<close>



lemma fmt_d_nat: "fmt_d w (int m) = zfill w (digits m)"
  by (simp add: fmt_d_def)

lemma fmt_f3_nat:
  "fmt_f3 w (of_nat s) = zfill w (digits s @ ''.000'')"
proof -
  have "py_round (\<bar>of_nat s\<bar> * 1000) = int s * 1000"
    using py_round_of_nat_mult [of s "num.Bit0 (num.Bit0 (num.Bit0 (num.Bit1 (num.Bit0
      (num.Bit1 (num.Bit1 (num.Bit1 (num.Bit1 num.One))))))))"] by simp
  then have n: "nat (py_round (\<bar>of_nat s\<bar> * 1000)) = s * 1000"
    by (simp add: nat_mult_distrib)
  show ?thesis
    unfolding fmt_f3_def Let_def n
    by (simp add: digits_eval digit_char_def zfill_def replicate_numeral)
qed

lemma zfill_split: "zfill w (xs @ ys) = replicate (w - length (xs @ ys)) CHR ''0'' @ xs @ ys"
  by (simp add: zfill_def)

lemma tag_form:
  assumes "parse_time_stamp ts = Inr c"
  shows "norm_ts_for_filename ts
           = Inr (zfill 2 (digits (c div 60)) @ CHR ''-''
                    # replicate (6 - length (digits (c mod 60) @ ''.000'')) CHR ''0''
                    @ digits (c mod 60) @ ''.000'')"
proof -
  have "c - 60 * (c div 60) = c mod 60"
    by (simp add: minus_mult_div_eq_mod)
  then show ?thesis
    using assms by (simp add: norm_ts_for_filename_def Let_def fmt_d_nat fmt_f3_nat zfill_def)
qed

lemma is_digit_minus [simp]: "\<not> is_digit CHR ''-''"
  by (simp add: is_digit_def)

lemma is_digit_dot [simp]: "\<not> is_digit CHR ''.''"
  by (simp add: is_digit_def)


















subsection \<open>Events of a half\<close>

lemma norm_ts_ok:
  "parse_time_stamp ts = Inr c \<Longrightarrow> \<exists>tag. norm_ts_for_filename ts = Inr tag"
  by (simp add: norm_ts_for_filename_def Let_def)

lemma event_loop_no_exception: "snd (event_loop sc writer_opens v items) = None"
proof (induction items)
  case Nil
  then show ?case by simp
next
  case (Cons a items)
  obtain ts event where a: "a = (ts, event)" by (cases a)
  obtain logs err where r: "event_loop sc writer_opens v items = (logs, err)"
    by (cases "event_loop sc writer_opens v items")
  with Cons have err: "err = None" by simp
  show ?case
  proof (cases "parse_time_stamp ts")
    case (Inl e)
    then show ?thesis using a r err by simp
  next
    case (Inr c)
    from norm_ts_ok [OF Inr] obtain tag where "norm_ts_for_filename ts = Inr tag" ..
    then show ?thesis using a r err Inr by simp
  qed
qed

lemma event_loop_job:
  assumes "(ts, event) \<in> set items"
    and "parse_time_stamp ts = Inr c" and "norm_ts_for_filename ts = Inr tag"
  shows "Job tag (write_clip_and_frames sc writer_opens v (of_nat c)
                    CLIP_BEFORE_SEC CLIP_AFTER_SEC tag event)
           \<in> set (fst (event_loop sc writer_opens v items))"
  using assms(1)
proof (induction items)
  case Nil
  then show ?case by simp
next
  case (Cons a items)
  obtain ts' event' where a: "a = (ts', event')" by (cases a)
  obtain logs err where r: "event_loop sc writer_opens v items = (logs, err)"
    by (cases "event_loop sc writer_opens v items")
  show ?case
  proof (cases "(ts, event) = a")
    case True
    then show ?thesis using a r assms(2,3) by simp
  next
    case False
    with Cons have in_rest: "Job tag (write_clip_and_frames sc writer_opens v (of_nat c)
                    CLIP_BEFORE_SEC CLIP_AFTER_SEC tag event) \<in> set logs"
      using r by simp
    show ?thesis
    proof (cases "parse_time_stamp ts'")
      case (Inl e)
      then show ?thesis using a r in_rest by simp
    next
      case (Inr c')
      from norm_ts_ok [OF Inr] obtain tag' where "norm_ts_for_filename ts' = Inr tag'" ..
      then show ?thesis using a r in_rest Inr by simp
    qed
  qed
qed

lemma keys_of_ok:
  "\<forall>x\<in>set xs. \<exists>k. key x = Inr k \<Longrightarrow> \<exists>ks. keys_of key xs = Inr ks \<and> length ks = length xs"
  by (induction xs) auto

lemma sorted_by_ok:
  assumes "\<forall>x\<in>set xs. \<exists>k. key x = Inr k"
  shows "\<exists>ys. sorted_by key xs = Inr ys \<and> set ys = set xs"
proof -
  from keys_of_ok [OF assms] obtain ks where ks: "keys_of key xs = Inr ks" "length ks = length xs"
    by blast
  have "set (map snd (sort_key fst (zip ks xs))) = snd ` set (zip ks xs)" by simp
  also have "\<dots> = set (map snd (zip ks xs))" by simp
  also have "\<dots> = set xs" using ks(2) by simp
  finally show ?thesis using ks(1) by (simp add: sorted_by_def)
qed

lemma process_half_jobs:
  assumes "opened v" and "\<forall>t\<in>set timestamps. \<exists>k. parse_time_stamp t = Inr k"
  shows "snd (process_half writer_opens v timestamps) = None"
    and "ts \<in> set timestamps \<Longrightarrow> parse_time_stamp ts = Inr c \<Longrightarrow> norm_ts_for_filename ts = Inr tag
         \<Longrightarrow> Job tag (write_clip_and_frames SoccerProj writer_opens v (of_nat c)
                        CLIP_BEFORE_SEC CLIP_AFTER_SEC tag None)
               \<in> set (fst (process_half writer_opens v timestamps))"
proof -
  from sorted_by_ok [OF assms(2)] obtain ts_sorted
    where s: "sorted_by parse_time_stamp timestamps = Inr ts_sorted" "set ts_sorted = set timestamps"
    by blast
  have ph: "process_half writer_opens v timestamps
              = event_loop SoccerProj writer_opens v (map (\<lambda>ts. (ts, None)) ts_sorted)"
    using assms(1) s(1) by (simp add: process_half_def)
  show "snd (process_half writer_opens v timestamps) = None"
    unfolding ph by (rule event_loop_no_exception)
  assume "ts \<in> set timestamps" "parse_time_stamp ts = Inr c" "norm_ts_for_filename ts = Inr tag"
  then show "Job tag (write_clip_and_frames SoccerProj writer_opens v (of_nat c)
                        CLIP_BEFORE_SEC CLIP_AFTER_SEC tag None)
               \<in> set (fst (process_half writer_opens v timestamps))"
    unfolding ph using s(2) by (intro event_loop_job) auto
qed

lemma set_unique_ts: "set (unique_ts seen xs) = set xs - seen"
  by (induction xs arbitrary: seen) auto

lemma set_split_halves:
  "set (fst (split_halves cs))
     = get_time_stamp ` {c \<in> set cs. get_time_stamp c \<noteq> [] \<and> half c = Some 1}"
  "set (snd (split_halves cs))
     = get_time_stamp ` {c \<in> set cs. get_time_stamp c \<noteq> [] \<and> half c = Some 2}"
  by (induction cs) (auto simp: Let_def split: prod.splits option.splits)

subsection \<open>Matches of a batch\<close>

lemma process_match_no_second_half:
  assumes "video_half2 m = []"
  shows "process_match writer_opens m = ([Processing_match (folder_name m), Error_no_json], None)
       \<or> process_match writer_opens m = ([Processing_match (folder_name m), Error_no_first_half], None)
       \<or> process_match writer_opens m = ([Processing_match (folder_name m), Error_no_second_half], None)"
  using assms by (simp add: process_match_def split: list.splits)

lemma process_match_header:
  "Processing_match (folder_name m) \<in> set (fst (process_match writer_opens m))"
  by (simp add: process_match_def Let_def split: list.splits option.splits prod.splits)

lemma main_loop_append:
  "main_loop writer_opens (xs @ ys) = main_loop writer_opens xs @ main_loop writer_opens ys"
  by (induction xs) simp_all

lemma main_loop_header:
  "m \<in> set ms \<Longrightarrow> Processing_match (folder_name m) \<in> set (main_loop writer_opens ms)"
proof (induction ms)
  case Nil
  then show ?case by simp
next
  case (Cons a ms)
  have "Processing_match (folder_name a)
          \<in> set (case process_match writer_opens a of
                   (logs, None) \<Rightarrow> logs
                 | (logs, Some e) \<Rightarrow> logs @ [Error_processing (folder_name a) e])"
    using process_match_header [of a writer_opens]
    by (cases "process_match writer_opens a") (auto split: option.splits)
  with Cons show ?case by auto
qed

lemma main_loop_contains:
  "m \<in> set ms \<Longrightarrow> set (fst (process_match writer_opens m)) \<subseteq> set (main_loop writer_opens ms)"
proof (induction ms)
  case Nil
  then show ?case by simp
next
  case (Cons a ms)
  have "set (fst (process_match writer_opens a))
          \<subseteq> set (case process_match writer_opens a of
                   (logs, None) \<Rightarrow> logs
                 | (logs, Some e) \<Rightarrow> logs @ [Error_processing (folder_name a) e])"
    by (cases "process_match writer_opens a") (auto split: option.splits)
  with Cons show ?case by auto
qed

lemma process_match_jobs:
  assumes j: "json_files m = Some comments # js"
    and v1: "video_half1 m = v1 # r1" and v2: "video_half2 m = v2 # r2"
    and o1: "opened v1" and o2: "opened v2"
    and ok: "\<forall>c'\<in>set comments. get_time_stamp c' \<noteq> [] \<and> (half c' = Some 1 \<or> half c' = Some 2)
               \<longrightarrow> (\<exists>k. parse_time_stamp (get_time_stamp c') = Inr k)"
  shows "snd (process_match writer_opens m) = None"
    and "c \<in> set comments \<Longrightarrow> parse_time_stamp (get_time_stamp c) = Inr s
         \<Longrightarrow> norm_ts_for_filename (get_time_stamp c) = Inr tag \<Longrightarrow> half c = Some 1
         \<Longrightarrow> Job tag (write_clip_and_frames SoccerProj writer_opens v1 (of_nat s)
                        CLIP_BEFORE_SEC CLIP_AFTER_SEC tag None)
               \<in> set (fst (process_match writer_opens m))"
    and "c \<in> set comments \<Longrightarrow> parse_time_stamp (get_time_stamp c) = Inr s
         \<Longrightarrow> norm_ts_for_filename (get_time_stamp c) = Inr tag \<Longrightarrow> half c = Some 2
         \<Longrightarrow> Job tag (write_clip_and_frames SoccerProj writer_opens v2 (of_nat s)
                        CLIP_BEFORE_SEC CLIP_AFTER_SEC tag None)
               \<in> set (fst (process_match writer_opens m))"
proof -
  define u1 where "u1 = unique_ts {} (fst (split_halves comments))"
  define u2 where "u2 = unique_ts {} (snd (split_halves comments))"
  define H1 where "H1 = (if u1 \<noteq> [] then process_half writer_opens v1 u1 else ([], None))"
  define H2 where "H2 = (if u2 \<noteq> [] then process_half writer_opens v2 u2 else ([], None))"
  have s1: "set u1 = get_time_stamp ` {c \<in> set comments. get_time_stamp c \<noteq> [] \<and> half c = Some 1}"
    and s2: "set u2 = get_time_stamp ` {c \<in> set comments. get_time_stamp c \<noteq> [] \<and> half c = Some 2}"
    by (simp_all add: u1_def u2_def set_unique_ts set_split_halves)
  have p1: "\<forall>t\<in>set u1. \<exists>k. parse_time_stamp t = Inr k"
    and p2: "\<forall>t\<in>set u2. \<exists>k. parse_time_stamp t = Inr k"
    using ok unfolding s1 s2 by auto
  have e1: "snd H1 = None"
    unfolding H1_def using process_half_jobs(1) [OF o1 p1] by simp
  have e2: "snd H2 = None"
    unfolding H2_def using process_half_jobs(1) [OF o2 p2] by simp
  have pm0: "process_match writer_opens m
              = (case snd H1 of
                   Some e \<Rightarrow> (Processing_match (folder_name m) # fst H1, Some e)
                 | None \<Rightarrow> (Processing_match (folder_name m) # fst H1 @ fst H2, snd H2))"
    unfolding H1_def H2_def u1_def u2_def
    by (simp add: process_match_def j v1 v2 Let_def case_prod_beta)
  have pm: "process_match writer_opens m
              = (Processing_match (folder_name m) # fst H1 @ fst H2, None)"
    by (simp add: pm0 e1 e2)
  show "snd (process_match writer_opens m) = None" by (simp add: pm)
  have nonempty: "get_time_stamp c \<noteq> []" if "parse_time_stamp (get_time_stamp c) = Inr s"
    using that by (auto simp: parse_time_stamp_def)
  {
    assume c: "c \<in> set comments" and p: "parse_time_stamp (get_time_stamp c) = Inr s"
      and n: "norm_ts_for_filename (get_time_stamp c) = Inr tag" and h: "half c = Some 1"
    have m1: "get_time_stamp c \<in> set u1" using c h nonempty [OF p] unfolding s1 by blast
    then have "u1 \<noteq> []" by auto
    then have "H1 = process_half writer_opens v1 u1" by (simp add: H1_def)
    then have "Job tag (write_clip_and_frames SoccerProj writer_opens v1 (of_nat s)
                        CLIP_BEFORE_SEC CLIP_AFTER_SEC tag None) \<in> set (fst H1)"
      using process_half_jobs(2) [OF o1 p1 m1 p n] by simp
    then show "Job tag (write_clip_and_frames SoccerProj writer_opens v1 (of_nat s)
                        CLIP_BEFORE_SEC CLIP_AFTER_SEC tag None)
               \<in> set (fst (process_match writer_opens m))"
      by (simp add: pm)
  }
  {
    assume c: "c \<in> set comments" and p: "parse_time_stamp (get_time_stamp c) = Inr s"
      and n: "norm_ts_for_filename (get_time_stamp c) = Inr tag" and h: "half c = Some 2"
    have m2: "get_time_stamp c \<in> set u2" using c h nonempty [OF p] unfolding s2 by blast
    then have "u2 \<noteq> []" by auto
    then have "H2 = process_half writer_opens v2 u2" by (simp add: H2_def)
    then have "Job tag (write_clip_and_frames SoccerProj writer_opens v2 (of_nat s)
                        CLIP_BEFORE_SEC CLIP_AFTER_SEC tag None) \<in> set (fst H2)"
      using process_half_jobs(2) [OF o2 p2 m2 p n] by simp
    then show "Job tag (write_clip_and_frames SoccerProj writer_opens v2 (of_nat s)
                        CLIP_BEFORE_SEC CLIP_AFTER_SEC tag None)
               \<in> set (fst (process_match writer_opens m))"
      by (simp add: pm)
  }
qed

text \<open>
  C4: a match folder with no second-half video runs no extraction job and raises nothing;
  in a batch, the entries of every match folder are those of its own \<^verbatim>\<open>process_match\<close>,
  whatever the other folders are, with an exception of \<^verbatim>\<open>process_match\<close> turned into one
  more entry; every folder of the batch is processed; and for every folder of the batch
  whose JSON file loads, whose two videos are found and open and whose timestamps of the
  two halves parse, the batch runs the extraction job of every event of the first half on
  the first video and of every event of the second half on the second video.
\<close>

theorem batch_isolates_matches:
  "(video_half2 m = [] \<longrightarrow>
      snd (process_match writer_opens m) = None
      \<and> (\<forall>tag j. Job tag j \<notin> set (fst (process_match writer_opens m))))
   \<and> main_loop writer_opens (ms1 @ m # ms2)
       = main_loop writer_opens ms1
         @ (case process_match writer_opens m of
              (logs, None) \<Rightarrow> logs
            | (logs, Some e) \<Rightarrow> logs @ [Error_processing (folder_name m) e])
         @ main_loop writer_opens ms2
   \<and> (\<forall>m' \<in> set ms. Processing_match (folder_name m') \<in> set (main_loop writer_opens ms))
   \<and> (\<forall>m' \<in> set ms. \<forall>comments js v1 r1 v2 r2 c s tag.
         json_files m' = Some comments # js
         \<and> video_half1 m' = v1 # r1 \<and> video_half2 m' = v2 # r2 \<and> opened v1 \<and> opened v2
         \<and> (\<forall>c' \<in> set comments.
               get_time_stamp c' \<noteq> [] \<and> (half c' = Some 1 \<or> half c' = Some 2)
               \<longrightarrow> (\<exists>k. parse_time_stamp (get_time_stamp c') = Inr k))
         \<and> c \<in> set comments
         \<and> parse_time_stamp (get_time_stamp c) = Inr s
         \<and> norm_ts_for_filename (get_time_stamp c) = Inr tag
         \<longrightarrow> (half c = Some 1 \<longrightarrow>
                Job tag (write_clip_and_frames SoccerProj writer_opens v1 (of_nat s)
                           CLIP_BEFORE_SEC CLIP_AFTER_SEC tag None)
                  \<in> set (main_loop writer_opens ms))
             \<and> (half c = Some 2 \<longrightarrow>
                Job tag (write_clip_and_frames SoccerProj writer_opens v2 (of_nat s)
                           CLIP_BEFORE_SEC CLIP_AFTER_SEC tag None)
                  \<in> set (main_loop writer_opens ms)))"
proof (intro conjI impI ballI allI)
  assume "video_half2 m = []"
  from process_match_no_second_half [OF this, of writer_opens]
  show "snd (process_match writer_opens m) = None" by auto
  from process_match_no_second_half [OF \<open>video_half2 m = []\<close>, of writer_opens]
  show "\<And>tag j. Job tag j \<notin> set (fst (process_match writer_opens m))" by auto
next
  show "main_loop writer_opens (ms1 @ m # ms2)
       = main_loop writer_opens ms1
         @ (case process_match writer_opens m of
              (logs, None) \<Rightarrow> logs
            | (logs, Some e) \<Rightarrow> logs @ [Error_processing (folder_name m) e])
         @ main_loop writer_opens ms2"
    by (simp add: main_loop_append)
next
  fix m' assume "m' \<in> set ms"
  then show "Processing_match (folder_name m') \<in> set (main_loop writer_opens ms)"
    by (rule main_loop_header)
next
  fix m' comments js v1 r1 v2 r2 c s tag
  assume m': "m' \<in> set ms"
    and a: "json_files m' = Some comments # js
         \<and> video_half1 m' = v1 # r1 \<and> video_half2 m' = v2 # r2 \<and> opened v1 \<and> opened v2
         \<and> (\<forall>c' \<in> set comments.
               get_time_stamp c' \<noteq> [] \<and> (half c' = Some 1 \<or> half c' = Some 2)
               \<longrightarrow> (\<exists>k. parse_time_stamp (get_time_stamp c') = Inr k))
         \<and> c \<in> set comments
         \<and> parse_time_stamp (get_time_stamp c) = Inr s
         \<and> norm_ts_for_filename (get_time_stamp c) = Inr tag"
  then have j: "json_files m' = Some comments # js"
    and v1: "video_half1 m' = v1 # r1" and v2: "video_half2 m' = v2 # r2"
    and o1: "opened v1" and o2: "opened v2"
    and ok: "\<forall>c' \<in> set comments.
               get_time_stamp c' \<noteq> [] \<and> (half c' = Some 1 \<or> half c' = Some 2)
               \<longrightarrow> (\<exists>k. parse_time_stamp (get_time_stamp c') = Inr k)"
    and c: "c \<in> set comments" and p: "parse_time_stamp (get_time_stamp c) = Inr s"
    and n: "norm_ts_for_filename (get_time_stamp c) = Inr tag"
    by blast+
  note sub = main_loop_contains [OF m', of writer_opens]
  {
    assume "half c = Some 1"
    from process_match_jobs(2) [OF j v1 v2 o1 o2 ok c p n this, of writer_opens] sub
    show "Job tag (write_clip_and_frames SoccerProj writer_opens v1 (of_nat s)
                           CLIP_BEFORE_SEC CLIP_AFTER_SEC tag None)
                  \<in> set (main_loop writer_opens ms)"
      by blast
  }
  {
    assume "half c = Some 2"
    from process_match_jobs(3) [OF j v1 v2 o1 o2 ok c p n this, of writer_opens] sub
    show "Job tag (write_clip_and_frames SoccerProj writer_opens v2 (of_nat s)
                           CLIP_BEFORE_SEC CLIP_AFTER_SEC tag None)
                  \<in> set (main_loop writer_opens ms)"
      by blast
  }
qed

lemma parse_0_20: "parse_time_stamp ''0:20'' = Inr 20"
  by (simp add: parse_time_stamp_def strip_def is_space_def is_digit_def fullmatch_time_stamp_def
      match_seconds_def int_of_digits_def digit_val_def Let_def)

lemma norm_0_20: "norm_ts_for_filename ''0:20'' = Inr ''00-20.000''"
  using tag_form [OF parse_0_20] by (simp add: zfill_def digits_eval digit_char_def replicate_numeral)

theorem batch_isolates_matches_witness:
  "video_half2 \<lparr>folder_name = ''m2'',
       json_files = [Some [\<lparr>time_stamp = Some ''0:20'', comments_type = Some ''goal'', half = Some 1\<rparr>]],
       video_half1 = [\<lparr>opened = True, fps = 1, frame_count = 100, width = 1280, height = 720,
                       readable = (\<lambda>p. p < 7)\<rparr>],
       video_half2 = []\<rparr> = []
   \<and> main_loop (\<lambda>n. True)
       [\<lparr>folder_name = ''m1'',
         json_files = [Some [\<lparr>time_stamp = Some ''0:20'', comments_type = Some ''goal'', half = Some 1\<rparr>]],
         video_half1 = [\<lparr>opened = True, fps = 1, frame_count = 100, width = 1280, height = 720,
                         readable = (\<lambda>p. p < 7)\<rparr>],
         video_half2 = [\<lparr>opened = True, fps = 1, frame_count = 100, width = 1280, height = 720,
                         readable = (\<lambda>p. p < 7)\<rparr>]\<rparr>,
        \<lparr>folder_name = ''m2'',
         json_files = [Some [\<lparr>time_stamp = Some ''0:20'', comments_type = Some ''goal'', half = Some 1\<rparr>]],
         video_half1 = [\<lparr>opened = True, fps = 1, frame_count = 100, width = 1280, height = 720,
                         readable = (\<lambda>p. p < 7)\<rparr>],
         video_half2 = []\<rparr>,
        \<lparr>folder_name = ''m3'', json_files = [None],
         video_half1 = [\<lparr>opened = True, fps = 1, frame_count = 100, width = 1280, height = 720,
                         readable = (\<lambda>p. p < 7)\<rparr>],
         video_half2 = [\<lparr>opened = True, fps = 1, frame_count = 100, width = 1280, height = 720,
                         readable = (\<lambda>p. p < 7)\<rparr>]\<rparr>]
     = [Processing_match ''m1'',
        Job ''00-20.000'' (Wrote ''clip_00-20.000_0005.000s_to_0035.000s.mp4'' 2 [5, 6]),
        Processing_match ''m2'', Error_no_second_half,
        Processing_match ''m3'', Error_processing ''m3'' Load_failure]"
proof -
  let ?v = "\<lparr>opened = True, fps = 1, frame_count = 100, width = 1280, height = 720,
             readable = (\<lambda>p. p < 7)\<rparr>"
  let ?c = "\<lparr>time_stamp = Some ''0:20'', comments_type = Some ''goal'', half = Some 1\<rparr>"
  let ?m1 = "\<lparr>folder_name = ''m1'', json_files = [Some [?c]], video_half1 = [?v], video_half2 = [?v]\<rparr>"
  let ?m2 = "\<lparr>folder_name = ''m2'', json_files = [Some [?c]], video_half1 = [?v], video_half2 = []\<rparr>"
  let ?m3 = "\<lparr>folder_name = ''m3'', json_files = [None], video_half1 = [?v], video_half2 = [?v]\<rparr>"
  let ?W = "\<lambda>n::string. True"
  let ?j = "Wrote ''clip_00-20.000_0005.000s_to_0035.000s.mp4'' 2 [5, 6]"
  have w: "window_calc 20 15 15 (duration_sec ?v) (fps ?v)
            = \<lparr>start_sec = 5, end_sec = 35, start_f = 5, end_f = 35\<rparr>"
    by (simp add: window_calc_def duration_sec_def)
  have n: "clip_name SoccerProj ''unknown'' ''00-20.000''
             \<lparr>start_sec = 5, end_sec = 35, start_f = 5, end_f = 35\<rparr>
           = ''clip_00-20.000_0005.000s_to_0035.000s.mp4''"
    by (simp add: fmt_eval)
  have t: "takeWhile (\<lambda>p. p < 7) [5..34] = [5, 6::int]"
    by simp
  have s1: "5 \<in> save_idxs SoccerProj
              \<lparr>start_sec = 5, end_sec = 35, start_f = 5, end_f = 35\<rparr> 15 15 1"
    unfolding save_idxs_image by (rule image_eqI [of _ _ 0]) (simp_all add: py_int_def)
  have s2: "6 \<in> save_idxs SoccerProj
              \<lparr>start_sec = 5, end_sec = 35, start_f = 5, end_f = 35\<rparr> 15 15 1"
    unfolding save_idxs_image by (rule image_eqI [of _ _ 1]) (simp_all add: py_int_def)
  have job: "write_clip_and_frames SoccerProj ?W ?v 20 15 15 ''00-20.000'' None = ?j"
    by (subst write_clip_WroteI [OF w [symmetric]]) (simp_all add: sanitize_None n t s1 s2)
  note T = batch_isolates_matches [of ?m2 ?W "[?m1]" "[?m3]" "[?m1, ?m2, ?m3]"]
  have in_batch: "Job ''00-20.000'' ?j \<in> set (main_loop ?W [?m1, ?m2, ?m3])"
    using T [THEN conjunct2, THEN conjunct2, THEN conjunct2, rule_format,
             of ?m1 "[?c]" "[]" ?v "[]" ?v "[]" ?c 20 "''00-20.000''", THEN conjunct1]
    by (simp add: get_time_stamp_def parse_0_20 norm_0_20 job CLIP_BEFORE_SEC_def CLIP_AFTER_SEC_def)
  have 1: "main_loop ?W [?m1] = [Processing_match ''m1'', Job ''00-20.000'' ?j]"
    by (simp add: process_match_def get_time_stamp_def process_half_def sorted_by_def
        parse_0_20 norm_0_20 job CLIP_BEFORE_SEC_def CLIP_AFTER_SEC_def)
  have 2: "process_match ?W ?m2 = ([Processing_match ''m2'', Error_no_second_half], None)"
    by (simp add: process_match_def)
  have 3: "main_loop ?W [?m3] = [Processing_match ''m3'', Error_processing ''m3'' Load_failure]"
    by (simp add: process_match_def)
  have log: "main_loop ?W [?m1, ?m2, ?m3]
     = [Processing_match ''m1'', Job ''00-20.000'' ?j,
        Processing_match ''m2'', Error_no_second_half,
        Processing_match ''m3'', Error_processing ''m3'' Load_failure]"
    using T [THEN conjunct2, THEN conjunct1] unfolding 1 2 3 by simp
  show ?thesis using log in_batch by simp
qed

end
